theory Spec2Isabelle
  imports Complex_Main "HOL-Library.AList" "HOL-Library.Code_Target_Numeral"
begin

section \<open>The cache of exercise2\_3\_reusable\_components.py\<close>

text \<open>
  The development embeds the classes \<open>EvictionPolicy\<close>, \<open>CacheEntry\<close> and \<open>Cache\<close> of
  \<^verbatim>\<open>src/exercise2_3_reusable_components.py\<close> (lines 756 to 981).

  \<^item> Every method of \<open>Cache\<close> runs under \<open>self._lock\<close>, so calls are linearised; a
    method is a function from the cache before the call to its result and the cache after.
  \<^item> A value is Python's \<open>Any\<close>: \<open>'v option\<close>, where \<open>None\<close> is Python's \<open>None\<close>.
  \<^item> A \<open>datetime\<close> is an integer number of microseconds since 0001-01-01T00:00:00,
    the resolution and the origin of Python's \<open>datetime\<close>. Each call of
    \<open>datetime.now()\<close> is an argument of the method that makes it (the wall clock is not
    under the program's control, and two readings inside one call may differ).
  \<^item> \<open>self._entries\<close> is a \<open>dict\<close>: an association list in insertion order, which is the
    order \<open>min\<close> iterates the keys in. \<open>AList.update\<close> replaces the value of a present
    key where it stands and appends an absent one; \<open>AList.delete\<close> removes a key.
  \<^item> \<open>self._stats\<close> is a \<open>dict\<close> with five fixed keys: five integer fields.
  \<^item> A \<open>float\<close> is an IEEE 754 binary64 number: its arithmetic is the exact result
    rounded to nearest, ties to even, with overflow as Python has it.
  \<^item> \<open>self.logger\<close> is left out. \<open>Logger._log\<close> catches what its handlers raise, writes
    to its handlers only, and the cache calls it after its own state is final.
\<close>

subsection \<open>Data model\<close>

type_synonym datetime = int

datatype EvictionPolicy = LRU | LFU | FIFO | TTL

datatype py_error = KeyError string | OverflowError | ZeroDivisionError

record 'v CacheEntry =
  key :: string
  entry_value :: "'v option"
  created :: datetime
  last_accessed :: datetime
  access_count :: int
  expires :: "datetime option"

record 'v Cache =
  name :: string
  max_size :: int
  policy :: EvictionPolicy
  default_ttl :: "int option"
  entries :: "(string \<times> 'v CacheEntry) list"
  hits :: int
  misses :: int
  sets :: int
  evictions :: int
  expirations :: int

subsection \<open>CacheEntry\<close>

text \<open>
  \<open>is_expired\<close>: \<open>if self.expires: return datetime.now() > self.expires\<close>, else
  \<open>False\<close>. A \<open>datetime\<close> object is always truthy, so the test is on \<open>None\<close> alone.
\<close>

definition is_expired :: "'v CacheEntry \<Rightarrow> datetime \<Rightarrow> bool" where
  "is_expired e now = (case expires e of None \<Rightarrow> False | Some x \<Rightarrow> now > x)"

definition access :: "'v CacheEntry \<Rightarrow> datetime \<Rightarrow> 'v CacheEntry" where
  "access e now = e\<lparr>last_accessed := now, access_count := access_count e + 1\<rparr>"

subsection \<open>Library arithmetic on dates\<close>

text \<open>
  \<open>timedelta(seconds=n)\<close> raises \<open>OverflowError\<close> unless the number of whole days has
  magnitude at most 999999999; \<open>datetime + timedelta\<close> raises \<open>OverflowError\<close> unless the
  sum lies between \<open>datetime.min\<close> and \<open>datetime.max\<close> (the last microsecond of the year
  9999, day 3652059 of the calendar).
\<close>

definition datetime_max :: datetime where
  "datetime_max = 3652059 * 86400 * 1000000 - 1"

definition timedelta :: "int \<Rightarrow> py_error + int" where
  "timedelta n = (if \<bar>n div 86400\<bar> \<le> 999999999 then Inr (n * 1000000) else Inl OverflowError)"

definition datetime_add :: "datetime \<Rightarrow> int \<Rightarrow> py_error + datetime" where
  "datetime_add t d = (if 0 \<le> t + d \<and> t + d \<le> datetime_max then Inr (t + d) else Inl OverflowError)"

subsection \<open>Cache\<close>

text \<open>\<open>__init__\<close> stores its arguments and has no \<open>raise\<close>: it returns a cache for every input.\<close>

definition fresh :: "string \<Rightarrow> int \<Rightarrow> EvictionPolicy \<Rightarrow> int option \<Rightarrow> 'v Cache" where
  "fresh n ms p d =
     \<lparr>name = n, max_size = ms, policy = p, default_ttl = d, entries = [],
      hits = 0, misses = 0, sets = 0, evictions = 0, expirations = 0\<rparr>"

definition Cache_init :: "string \<Rightarrow> int \<Rightarrow> EvictionPolicy \<Rightarrow> int option \<Rightarrow> py_error + 'v Cache" where
  "Cache_init n ms p d = Inr (fresh n ms p d)"

definition len_entries :: "'v Cache \<Rightarrow> int" where
  "len_entries c = int (length (entries c))"

text \<open>
  \<open>get\<close>: \<open>now_expired\<close> is the reading of \<open>is_expired\<close>, \<open>now_access\<close> the one of
  \<open>entry.access()\<close>. The result is the returned value and the cache after the call.
\<close>

definition Cache_get ::
  "'v Cache \<Rightarrow> string \<Rightarrow> 'v option \<Rightarrow> datetime \<Rightarrow> datetime \<Rightarrow> 'v option \<times> 'v Cache" where
  "Cache_get c k dflt now_expired now_access =
     (case map_of (entries c) k of
        Some entry \<Rightarrow>
          if is_expired entry now_expired
          then (dflt, c\<lparr>entries := AList.delete k (entries c), expirations := expirations c + 1\<rparr>)
          else (entry_value entry,
                c\<lparr>entries := AList.update k (access entry now_access) (entries c),
                  hits := hits c + 1\<rparr>)
      | None \<Rightarrow> (dflt, c\<lparr>misses := misses c + 1\<rparr>))"

text \<open>
  Python's \<open>min(iterable, key=f)\<close> keeps the first element and replaces it only by a
  later one whose key is strictly smaller: on a tie the earliest element wins.
\<close>

fun min_from :: "('a \<Rightarrow> 'b::linorder) \<Rightarrow> 'a \<Rightarrow> 'a list \<Rightarrow> 'a" where
  "min_from f best [] = best"
| "min_from f best (x # xs) = min_from f (if f x < f best then x else best) xs"

text \<open>
  \<open>_evict\<close>: nothing on an empty dict; else the key chosen by the policy is deleted. The
  sort key \<open>self._entries[k].field\<close> of a key is the field of the entry stored with it.
\<close>

definition key_to_evict :: "EvictionPolicy \<Rightarrow> (string \<times> 'v CacheEntry) \<Rightarrow> (string \<times> 'v CacheEntry) list \<Rightarrow> string" where
  "key_to_evict p x xs =
     fst (case p of
            LRU \<Rightarrow> min_from (\<lambda>ke. last_accessed (snd ke)) x xs
          | LFU \<Rightarrow> min_from (\<lambda>ke. access_count (snd ke)) x xs
          | FIFO \<Rightarrow> min_from (\<lambda>ke. created (snd ke)) x xs
          | TTL \<Rightarrow> min_from (\<lambda>ke. last_accessed (snd ke)) x xs)"

definition Cache_evict :: "'v Cache \<Rightarrow> 'v Cache" where
  "Cache_evict c =
     (case entries c of
        [] \<Rightarrow> c
      | x # xs \<Rightarrow>
          c\<lparr>entries := AList.delete (key_to_evict (policy c) x xs) (entries c),
            evictions := evictions c + 1\<rparr>)"

text \<open>
  \<open>ttl or self.default_ttl\<close> yields \<open>ttl\<close> when it is truthy (neither \<open>None\<close> nor 0) and
  \<open>self.default_ttl\<close> otherwise; \<open>if ttl_seconds:\<close> then tests the result the same way.
\<close>

fun truthy :: "int option \<Rightarrow> bool" where
  "truthy None = False"
| "truthy (Some n) = (n \<noteq> 0)"

definition py_or :: "int option \<Rightarrow> int option \<Rightarrow> int option" where
  "py_or a b = (if truthy a then a else b)"

definition compute_expires :: "int option \<Rightarrow> datetime \<Rightarrow> py_error + datetime option" where
  "compute_expires ttl_seconds now =
     (case ttl_seconds of
        None \<Rightarrow> Inr None
      | Some n \<Rightarrow>
          if n \<noteq> 0
          then (case timedelta n of
                  Inl err \<Rightarrow> Inl err
                | Inr d \<Rightarrow> (case datetime_add now d of Inl err \<Rightarrow> Inl err | Inr x \<Rightarrow> Inr (Some x)))
          else Inr None)"

text \<open>
  \<open>set\<close>: \<open>now_expires\<close> is the reading of the expiry computation; \<open>now_first\<close> is the
  next reading (of \<open>entry.access()\<close> for a present key, of the field \<open>created\<close> for a new
  entry) and \<open>now_second\<close> the one after (of the field \<open>last_accessed\<close> of a new entry).
  The result is the exception raised, if any, and the cache after the call: an exception
  of the expiry computation leaves the eviction done and nothing else.
\<close>

definition Cache_set ::
  "'v Cache \<Rightarrow> string \<Rightarrow> 'v option \<Rightarrow> int option \<Rightarrow> datetime \<Rightarrow> datetime \<Rightarrow> datetime
     \<Rightarrow> py_error option \<times> 'v Cache" where
  "Cache_set c k v ttl now_expires now_first now_second =
     (let c1 = (if len_entries c \<ge> max_size c \<and> map_of (entries c) k = None
                then Cache_evict c else c)
      in case compute_expires (py_or ttl (default_ttl c1)) now_expires of
           Inl err \<Rightarrow> (Some err, c1)
         | Inr ex \<Rightarrow>
             (None,
              (case map_of (entries c1) k of
                 Some entry \<Rightarrow>
                   c1\<lparr>entries :=
                        AList.update k (access (entry\<lparr>entry_value := v, expires := ex\<rparr>) now_first)
                          (entries c1)\<rparr>
               | None \<Rightarrow>
                   c1\<lparr>entries :=
                        AList.update k
                          \<lparr>key = k, entry_value = v, created = now_first,
                           last_accessed = now_second, access_count = 0, expires = ex\<rparr>
                          (entries c1)\<rparr>)
              \<lparr>sets := sets c1 + 1\<rparr>))"

definition Cache_delete :: "'v Cache \<Rightarrow> string \<Rightarrow> bool \<times> 'v Cache" where
  "Cache_delete c k =
     (case map_of (entries c) k of
        Some entry \<Rightarrow> (True, c\<lparr>entries := AList.delete k (entries c)\<rparr>)
      | None \<Rightarrow> (False, c))"

definition Cache_clear :: "'v Cache \<Rightarrow> 'v Cache" where
  "Cache_clear c = c\<lparr>entries := []\<rparr>"

text \<open>\<open>__contains__\<close>, \<open>__getitem__\<close>, \<open>__setitem__\<close> and \<open>__delitem__\<close>.\<close>

definition Cache_contains :: "'v Cache \<Rightarrow> string \<Rightarrow> datetime \<Rightarrow> datetime \<Rightarrow> bool \<times> 'v Cache" where
  "Cache_contains c k now_expired now_access =
     (case Cache_get c k None now_expired now_access of (r, c') \<Rightarrow> (r \<noteq> None, c'))"

definition Cache_getitem ::
  "'v Cache \<Rightarrow> string \<Rightarrow> datetime \<Rightarrow> datetime \<Rightarrow> (py_error + 'v) \<times> 'v Cache" where
  "Cache_getitem c k now_expired now_access =
     (case Cache_get c k None now_expired now_access of
        (None, c') \<Rightarrow> (Inl (KeyError k), c')
      | (Some x, c') \<Rightarrow> (Inr x, c'))"

definition Cache_setitem ::
  "'v Cache \<Rightarrow> string \<Rightarrow> 'v option \<Rightarrow> datetime \<Rightarrow> datetime \<Rightarrow> datetime \<Rightarrow> py_error option \<times> 'v Cache" where
  "Cache_setitem c k v now_expires now_first now_second =
     Cache_set c k v None now_expires now_first now_second"

definition Cache_delitem :: "'v Cache \<Rightarrow> string \<Rightarrow> py_error option \<times> 'v Cache" where
  "Cache_delitem c k =
     (case Cache_delete c k of (True, c') \<Rightarrow> (None, c') | (False, c') \<Rightarrow> (Some (KeyError k), c'))"

subsection \<open>Binary floating point\<close>

text \<open>
  \<open>hits / total_requests * 100\<close> is computed in Python's \<open>float\<close>, IEEE 754 binary64. A
  finite float is a sign and a magnitude, a rational with at most 53 significant bits
  (the sign is kept apart so that \<open>-0.0\<close> is a value); the only other value that the
  expression can yield is an infinity.

  \<open>round64\<close> rounds a magnitude to the nearest representable one, ties to the even
  significand: with \<open>exponent x\<close> the integer \<open>e\<close> such that \<open>2^e \<le> x < 2^(e+1)\<close>, the
  representable numbers around \<open>x\<close> are the multiples of \<open>2^(e - 52)\<close>, and of \<open>2^(-1074)\<close>
  below the smallest normal number \<open>2^(-1022)\<close>. \<open>bit_length\<close> is \<open>int.bit_length\<close>.
\<close>

datatype float64 = Finite bool rat | Infinity bool

fun bit_length :: "nat \<Rightarrow> nat" where
  "bit_length n = (if n = 0 then 0 else Suc (bit_length (n div 2)))"

declare bit_length.simps [simp del]

definition pow2 :: "int \<Rightarrow> rat" where
  "pow2 e = (if 0 \<le> e then 2 ^ nat e else 1 / 2 ^ nat (- e))"

definition exponent :: "rat \<Rightarrow> int" where
  "exponent x =
     (if 1 \<le> x then int (bit_length (nat \<lfloor>x\<rfloor>)) - 1
      else - int (bit_length (nat (\<lceil>1 / x\<rceil> - 1))))"

definition round_half_even :: "rat \<Rightarrow> int" where
  "round_half_even q =
     (let f = \<lfloor>q\<rfloor>; r = q - of_int f
      in if r < 1 / 2 then f else if 1 / 2 < r then f + 1 else if even f then f else f + 1)"

definition round64 :: "rat \<Rightarrow> rat" where
  "round64 x =
     (if x = 0 then 0
      else let ulp = pow2 (max (exponent x) (- 1022) - 52)
           in of_int (round_half_even (x / ulp)) * ulp)"

text \<open>
  \<open>a / b\<close> on two \<open>int\<close>s is the correctly rounded quotient; it raises
  \<open>ZeroDivisionError\<close> on a zero divisor and \<open>OverflowError\<close> when the rounded quotient is
  not below \<open>2^1024\<close>. The sign is the exclusive or of the signs of \<open>a\<close> and \<open>b\<close>, also
  when the quotient is zero.
\<close>

definition py_truediv :: "int \<Rightarrow> int \<Rightarrow> py_error + float64" where
  "py_truediv a b =
     (if b = 0 then Inl ZeroDivisionError
      else let m = round64 (\<bar>of_int a\<bar> / \<bar>of_int b\<bar>)
           in if 2 ^ 1024 \<le> m then Inl OverflowError
              else Inr (Finite ((a < 0) \<noteq> (b < 0)) m))"

text \<open>
  \<open>x * 100\<close> on a float: the \<open>int\<close> 100 converts to the float 100.0 exactly, and the
  product is rounded; a product that rounds to \<open>2^1024\<close> or more is an infinity (float
  multiplication raises nothing).
\<close>

fun float_mul_100 :: "float64 \<Rightarrow> float64" where
  "float_mul_100 (Finite s m) =
     (let r = round64 (m * 100) in if 2 ^ 1024 \<le> r then Infinity s else Finite s r)"
| "float_mul_100 (Infinity s) = Infinity s"

subsection \<open>get\_stats\<close>

text \<open>
  \<open>hit_rate = (hits / total_requests * 100) if total_requests > 0 else 0\<close>; the \<open>int\<close> 0 of
  the second branch is rendered like the float 0.0.
\<close>

definition hit_rate :: "'v Cache \<Rightarrow> py_error + float64" where
  "hit_rate c =
     (let total_requests = hits c + misses c
      in if total_requests > 0
         then (case py_truediv (hits c) total_requests of
                 Inl err \<Rightarrow> Inl err
               | Inr q \<Rightarrow> Inr (float_mul_100 q))
         else Inr (Finite False 0))"

text \<open>
  \<open>str(n)\<close> for a natural number, and \<open>f"{x:.1f}"\<close>: the decimal with one digit after
  the point that is nearest to the exact value of the float, ties to the even digit.
\<close>

fun str_nat :: "nat \<Rightarrow> string" where
  "str_nat n =
     (if n < 10 then [''0123456789'' ! n]
      else str_nat (n div 10) @ [''0123456789'' ! (n mod 10)])"

declare str_nat.simps [simp del]

text \<open>
  Reading a decimal numeral back, as \<open>int(s)\<close> does for a string of ASCII digits; \<open>None\<close>
  where \<open>int\<close> raises \<open>ValueError\<close>.
\<close>

fun digit_value :: "char \<Rightarrow> nat option" where
  "digit_value ch =
     (if ch = CHR ''0'' then Some 0 else if ch = CHR ''1'' then Some 1
      else if ch = CHR ''2'' then Some 2 else if ch = CHR ''3'' then Some 3
      else if ch = CHR ''4'' then Some 4 else if ch = CHR ''5'' then Some 5
      else if ch = CHR ''6'' then Some 6 else if ch = CHR ''7'' then Some 7
      else if ch = CHR ''8'' then Some 8 else if ch = CHR ''9'' then Some 9
      else None)"

fun read_digits :: "nat \<Rightarrow> string \<Rightarrow> nat option" where
  "read_digits acc [] = Some acc"
| "read_digits acc (ch # s) =
     (case digit_value ch of None \<Rightarrow> None | Some d \<Rightarrow> read_digits (10 * acc + d) s)"

definition read_nat :: "string \<Rightarrow> nat option" where
  "read_nat s = (if s = [] then None else read_digits 0 s)"

definition tenths :: "rat \<Rightarrow> int" where
  "tenths m = round_half_even (m * 10)"

fun format_1f :: "float64 \<Rightarrow> string" where
  "format_1f (Finite s m) =
     (if s then ''-'' else []) @ str_nat (nat (tenths m div 10)) @ ''.''
       @ str_nat (nat (tenths m mod 10))"
| "format_1f (Infinity s) = (if s then ''-inf'' else ''inf'')"

fun policy_value :: "EvictionPolicy \<Rightarrow> string" where
  "policy_value LRU = ''lru''"
| "policy_value LFU = ''lfu''"
| "policy_value FIFO = ''fifo''"
| "policy_value TTL = ''ttl''"

record CacheStats =
  r_hits :: int
  r_misses :: int
  r_sets :: int
  r_evictions :: int
  r_expirations :: int
  r_size :: int
  r_max_size :: int
  r_policy :: string
  r_hit_rate :: string
  r_keys :: "string list"

definition Cache_get_stats :: "'v Cache \<Rightarrow> py_error + CacheStats" where
  "Cache_get_stats c =
     (case hit_rate c of
        Inl err \<Rightarrow> Inl err
      | Inr hr \<Rightarrow>
          Inr \<lparr>r_hits = hits c, r_misses = misses c, r_sets = sets c,
               r_evictions = evictions c, r_expirations = expirations c,
               r_size = len_entries c, r_max_size = max_size c,
               r_policy = policy_value (policy c),
               r_hit_rate = format_1f hr @ ''%'',
               r_keys = map fst (entries c)\<rparr>)"

subsection \<open>Sequences of calls\<close>

text \<open>
  A call of a public method with its arguments and its clock readings. A caller that
  catches an exception goes on with the cache as the raising call left it.
\<close>

datatype 'v call =
    Get string "'v option" datetime datetime
  | Set string "'v option" "int option" datetime datetime datetime
  | Delete string
  | Clear
  | Contains string datetime datetime
  | GetItem string datetime datetime
  | SetItem string "'v option" datetime datetime datetime
  | DelItem string
  | GetStats

fun step :: "'v Cache \<Rightarrow> 'v call \<Rightarrow> 'v Cache" where
  "step c (Get k d t1 t2) = snd (Cache_get c k d t1 t2)"
| "step c (Set k v ttl t1 t2 t3) = snd (Cache_set c k v ttl t1 t2 t3)"
| "step c (Delete k) = snd (Cache_delete c k)"
| "step c Clear = Cache_clear c"
| "step c (Contains k t1 t2) = snd (Cache_contains c k t1 t2)"
| "step c (GetItem k t1 t2) = snd (Cache_getitem c k t1 t2)"
| "step c (SetItem k v t1 t2 t3) = snd (Cache_setitem c k v t1 t2 t3)"
| "step c (DelItem k) = snd (Cache_delitem c k)"
| "step c GetStats = c"

fun run :: "'v Cache \<Rightarrow> 'v call list \<Rightarrow> 'v Cache" where
  "run c [] = c"
| "run c (x # xs) = run (step c x) xs"

text \<open>The number of executions of \<open>Cache.get\<close> a call makes.\<close>

fun get_calls :: "'v call \<Rightarrow> nat" where
  "get_calls (Get k d t1 t2) = 1"
| "get_calls (Contains k t1 t2) = 1"
| "get_calls (GetItem k t1 t2) = 1"
| "get_calls _ = 0"

definition gets_made :: "'v call list \<Rightarrow> int" where
  "gets_made xs = int (sum_list (map get_calls xs))"

section \<open>Auxiliary facts\<close>

subsection \<open>Association lists and the minimum\<close>

lemma length_update_present:
  "map_of es k = Some e \<Longrightarrow> length (AList.update k v es) = length es"
  by (induction es) (auto split: if_splits)

lemma length_update_absent:
  "map_of es k = None \<Longrightarrow> length (AList.update k v es) = Suc (length es)"
  by (induction es) (auto split: if_splits)

lemma keys_update_present:
  "map_of es k = Some e \<Longrightarrow> map fst (AList.update k v es) = map fst es"
  by (induction es) (auto split: if_splits)

lemma length_delete_present:
  "map_of es k = Some e \<Longrightarrow> length (AList.delete k es) < length es"
proof (induction es)
  case Nil
  then show ?case by simp
next
  case (Cons p ps)
  show ?case
  proof (cases "fst p = k")
    case True
    have "length (AList.delete k ps) \<le> length ps" by (rule length_delete_le)
    with True show ?thesis by (cases p) simp
  next
    case False
    with Cons show ?thesis by (cases p) (auto split: if_splits)
  qed
qed

lemma min_from_mem: "min_from f b xs \<in> set (b # xs)"
  by (induction xs arbitrary: b) auto

lemma min_from_le_best: "f (min_from f b xs) \<le> f b"
proof (induction xs arbitrary: b)
  case Nil
  then show ?case by simp
next
  case (Cons x xs)
  have "f (min_from f (if f x < f b then x else b) xs) \<le> f (if f x < f b then x else b)"
    by (rule Cons.IH)
  then show ?case by (auto split: if_splits)
qed

lemma min_from_least: "y \<in> set (b # xs) \<Longrightarrow> f (min_from f b xs) \<le> f y"
proof (induction xs arbitrary: b)
  case Nil
  then show ?case by simp
next
  case (Cons x xs)
  let ?b = "if f x < f b then x else b"
  have le: "f (min_from f ?b xs) \<le> f ?b" by (rule min_from_le_best)
  from Cons.prems consider "y = b" | "y = x" | "y \<in> set xs" by auto
  then show ?case
  proof cases
    case 1
    with le show ?thesis by (auto split: if_splits)
  next
    case 2
    with le show ?thesis by (auto split: if_splits)
  next
    case 3
    then have "y \<in> set (?b # xs)" by simp
    then have "f (min_from f ?b xs) \<le> f y" by (rule Cons.IH)
    then show ?thesis by simp
  qed
qed

lemma key_to_evict_mem: "key_to_evict p x xs \<in> fst ` set (x # xs)"
proof -
  have "fst (min_from f x xs) \<in> fst ` set (x # xs)" for f :: "string \<times> 'a CacheEntry \<Rightarrow> int"
    by (rule imageI) (rule min_from_mem)
  then show ?thesis
    unfolding key_to_evict_def by (cases p) (simp_all only: EvictionPolicy.case)
qed

subsection \<open>Eviction\<close>

lemma map_of_mem_Some: "k \<in> fst ` set es \<Longrightarrow> \<exists>e. map_of es k = Some e"
  by (induction es) auto

lemma evict_frame:
  "max_size (Cache_evict c) = max_size c" "policy (Cache_evict c) = policy c"
  "default_ttl (Cache_evict c) = default_ttl c" "hits (Cache_evict c) = hits c"
  "misses (Cache_evict c) = misses c" "expirations (Cache_evict c) = expirations c"
  "sets (Cache_evict c) = sets c"
  by (cases "entries c"; simp add: Cache_evict_def)+

lemma entries_evict:
  "entries c = x # ys \<Longrightarrow>
   entries (Cache_evict c) = AList.delete (key_to_evict (policy c) x ys) (entries c)"
  by (simp add: Cache_evict_def)

lemma evictions_evict:
  "entries c \<noteq> [] \<Longrightarrow> evictions (Cache_evict c) = evictions c + 1"
  by (cases "entries c"; simp add: Cache_evict_def)

lemma evict_empty: "entries c = [] \<Longrightarrow> Cache_evict c = c"
  by (simp add: Cache_evict_def)

lemma len_evict_le: "len_entries (Cache_evict c) \<le> len_entries c"
proof (cases "entries c")
  case Nil
  then show ?thesis by (simp add: Cache_evict_def)
next
  case (Cons x ys)
  have "length (AList.delete (key_to_evict (policy c) x ys) (entries c)) \<le> length (entries c)"
    by (rule length_delete_le)
  then show ?thesis
    unfolding entries_evict [OF Cons] len_entries_def by simp
qed

lemma len_evict_less: "entries c \<noteq> [] \<Longrightarrow> len_entries (Cache_evict c) < len_entries c"
proof -
  assume ne: "entries c \<noteq> []"
  then obtain x ys where ys: "entries c = x # ys" by (cases "entries c") auto
  have "key_to_evict (policy c) x ys \<in> fst ` set (entries c)"
    unfolding ys by (rule key_to_evict_mem)
  then have "\<exists>e. map_of (entries c) (key_to_evict (policy c) x ys) = Some e"
    by (rule map_of_mem_Some)
  then obtain e where "map_of (entries c) (key_to_evict (policy c) x ys) = Some e" ..
  then have "length (AList.delete (key_to_evict (policy c) x ys) (entries c)) < length (entries c)"
    by (rule length_delete_present)
  then show ?thesis
    unfolding entries_evict [OF ys] len_entries_def by simp
qed

section \<open>The claims\<close>

subsection \<open>The three outcomes of get\<close>

lemma get_expired:
  "map_of (entries c) k = Some e \<Longrightarrow> is_expired e t1 \<Longrightarrow>
   Cache_get c k d t1 t2 =
     (d, c\<lparr>entries := AList.delete k (entries c), expirations := expirations c + 1\<rparr>)"
  by (simp add: Cache_get_def)

lemma get_hit:
  "map_of (entries c) k = Some e \<Longrightarrow> \<not> is_expired e t1 \<Longrightarrow>
   Cache_get c k d t1 t2 =
     (entry_value e,
      c\<lparr>entries := AList.update k (access e t2) (entries c), hits := hits c + 1\<rparr>)"
  by (simp add: Cache_get_def)

lemma get_miss:
  "map_of (entries c) k = None \<Longrightarrow> Cache_get c k d t1 t2 = (d, c\<lparr>misses := misses c + 1\<rparr>)"
  by (simp add: Cache_get_def)

text \<open>
  Claim C9. A \<open>get\<close> on a key whose entry is expired returns the default, removes the
  entry, adds exactly 1 to \<open>expirations\<close> and leaves \<open>hits\<close> and \<open>misses\<close> as they
  were: it counts neither as a hit nor as a miss.
\<close>

theorem expired_get_counts_expiration_only:
  assumes "map_of (entries c) k = Some e" and "is_expired e t1"
  shows "fst (Cache_get c k d t1 t2) = d
       \<and> map_of (entries (snd (Cache_get c k d t1 t2))) k = None
       \<and> entries (snd (Cache_get c k d t1 t2)) = AList.delete k (entries c)
       \<and> expirations (snd (Cache_get c k d t1 t2)) = expirations c + 1
       \<and> hits (snd (Cache_get c k d t1 t2)) = hits c
       \<and> misses (snd (Cache_get c k d t1 t2)) = misses c"
  unfolding get_expired [OF assms] by (simp add: delete_conv')

theorem expired_get_counts_expiration_only_witness:
  "fst (Cache_get (snd (Cache_set (fresh ''c'' 100 LRU None) ''k'' (Some (7::nat)) (Some 1) 10 11 12))
         ''k'' (Some 0) 5000000 5000001) = Some 0
   \<and> expirations (snd (Cache_get (snd (Cache_set (fresh ''c'' 100 LRU None) ''k'' (Some (7::nat)) (Some 1) 10 11 12))
         ''k'' (Some 0) 5000000 5000001)) = 1
   \<and> hits (snd (Cache_get (snd (Cache_set (fresh ''c'' 100 LRU None) ''k'' (Some (7::nat)) (Some 1) 10 11 12))
         ''k'' (Some 0) 5000000 5000001)) = 0
   \<and> misses (snd (Cache_get (snd (Cache_set (fresh ''c'' 100 LRU None) ''k'' (Some (7::nat)) (Some 1) 10 11 12))
         ''k'' (Some 0) 5000000 5000001)) = 0
   \<and> entries (snd (Cache_get (snd (Cache_set (fresh ''c'' 100 LRU None) ''k'' (Some (7::nat)) (Some 1) 10 11 12))
         ''k'' (Some 0) 5000000 5000001)) = []"
proof -
  let ?c = "snd (Cache_set (fresh ''c'' 100 LRU None) ''k'' (Some (7::nat)) (Some 1) 10 11 12)"
  let ?e = "\<lparr>key = ''k'', entry_value = Some (7::nat), created = 11, last_accessed = 12,
             access_count = 0, expires = Some 1000010\<rparr>"
  have c: "?c = \<lparr>name = ''c'', max_size = 100, policy = LRU, default_ttl = None,
                 entries = [(''k'', ?e)], hits = 0, misses = 0, sets = 1, evictions = 0,
                 expirations = 0\<rparr>"
    by (simp add: Cache_set_def fresh_def len_entries_def compute_expires_def py_or_def
        timedelta_def datetime_add_def datetime_max_def)
  have m: "map_of (entries ?c) ''k'' = Some ?e" unfolding c by simp
  have x: "is_expired ?e 5000000" by (simp add: is_expired_def)
  show ?thesis
    using expired_get_counts_expiration_only [OF m x, of "Some 0" 5000001]
    unfolding c by simp
qed

subsection \<open>What set leaves alone, and the entry it stores\<close>

lemma set_frame:
  "max_size (snd (Cache_set c k v ttl t1 t2 t3)) = max_size c"
  "policy (snd (Cache_set c k v ttl t1 t2 t3)) = policy c"
  "default_ttl (snd (Cache_set c k v ttl t1 t2 t3)) = default_ttl c"
  "hits (snd (Cache_set c k v ttl t1 t2 t3)) = hits c"
  "misses (snd (Cache_set c k v ttl t1 t2 t3)) = misses c"
  "expirations (snd (Cache_set c k v ttl t1 t2 t3)) = expirations c"
  by (simp_all add: Cache_set_def Let_def evict_frame split: sum.splits option.splits)

lemma set_stores:
  assumes "compute_expires (py_or ttl (default_ttl c)) t1 = Inr ex"
  shows "fst (Cache_set c k v ttl t1 t2 t3) = None
       \<and> (\<exists>e. map_of (entries (snd (Cache_set c k v ttl t1 t2 t3))) k = Some e
              \<and> entry_value e = v \<and> expires e = ex)"
proof -
  let ?c1 = "if len_entries c \<ge> max_size c \<and> map_of (entries c) k = None then Cache_evict c else c"
  have d: "default_ttl ?c1 = default_ttl c" by (simp add: evict_frame)
  show ?thesis
    unfolding Cache_set_def Let_def d assms
    by (cases "map_of (entries ?c1) k") (simp_all add: update_conv' access_def)
qed

lemma compute_expires_no_ttl:
  "\<not> truthy d \<Longrightarrow> compute_expires (py_or (Some 0) d) now = Inr None"
  by (cases d) (simp_all add: compute_expires_def py_or_def)

subsection \<open>Expiry with a zero ttl\<close>

text \<open>
  Claim C2, as stated: \<open>set("k", v, ttl=0)\<close> followed by \<open>get("k")\<close> returns the default
  and adds 1 to \<open>expirations\<close>. The code does not: on a new cache with no default ttl the
  \<open>get\<close> returns the stored value and \<open>expirations\<close> stays 0.
\<close>

theorem set_ttl_zero_then_get_counterexample:
  "\<not> (fst (Cache_get (snd (Cache_set (fresh ''c'' 100 LRU None) ''k'' (Some (7::nat)) (Some 0) 10 11 12))
              ''k'' None 13 14) = None
      \<and> expirations (snd (Cache_get (snd (Cache_set (fresh ''c'' 100 LRU None) ''k'' (Some (7::nat)) (Some 0) 10 11 12))
              ''k'' None 13 14))
        = expirations (snd (Cache_set (fresh ''c'' 100 LRU None) ''k'' (Some (7::nat)) (Some 0) 10 11 12)) + 1)"
  by (simp add: Cache_get_def Cache_set_def fresh_def len_entries_def compute_expires_def
      py_or_def is_expired_def access_def)

text \<open>
  Claim C2, amended. A ttl of 0 is falsy, so \<open>ttl or self.default_ttl\<close> discards it: on
  every cache the call is the call without a ttl, and when it returns normally the entry
  stored under the key carries the expiry computed from the cache's default ttl. When the
  cache has no default ttl (\<open>None\<close> or 0), the entry never expires: \<open>set\<close> returns
  normally, and the \<open>get\<close> that follows returns the stored value, adds 1 to \<open>hits\<close> and
  leaves \<open>expirations\<close> and \<open>misses\<close> unchanged.
\<close>

theorem set_ttl_zero_never_expires:
  "Cache_set c k v (Some 0) t1 t2 t3 = Cache_set c k v None t1 t2 t3
   \<and> (\<forall>ex. compute_expires (default_ttl c) t1 = Inr ex \<longrightarrow>
          fst (Cache_set c k v (Some 0) t1 t2 t3) = None
        \<and> (\<exists>e. map_of (entries (snd (Cache_set c k v (Some 0) t1 t2 t3))) k = Some e
               \<and> entry_value e = v \<and> expires e = ex))
   \<and> (\<not> truthy (default_ttl c) \<longrightarrow>
          fst (Cache_set c k v (Some 0) t1 t2 t3) = None
        \<and> fst (Cache_get (snd (Cache_set c k v (Some 0) t1 t2 t3)) k d g1 g2) = v
        \<and> hits (snd (Cache_get (snd (Cache_set c k v (Some 0) t1 t2 t3)) k d g1 g2)) = hits c + 1
        \<and> expirations (snd (Cache_get (snd (Cache_set c k v (Some 0) t1 t2 t3)) k d g1 g2))
            = expirations c
        \<and> misses (snd (Cache_get (snd (Cache_set c k v (Some 0) t1 t2 t3)) k d g1 g2)) = misses c)"
proof (intro conjI allI impI)
  show "Cache_set c k v (Some 0) t1 t2 t3 = Cache_set c k v None t1 t2 t3"
    by (simp add: Cache_set_def py_or_def)
next
  fix ex
  assume "compute_expires (default_ttl c) t1 = Inr ex"
  then have ex: "compute_expires (py_or (Some 0) (default_ttl c)) t1 = Inr ex"
    by (simp add: py_or_def)
  from set_stores [OF ex, of k v t2 t3]
  show "fst (Cache_set c k v (Some 0) t1 t2 t3) = None"
    and "\<exists>e. map_of (entries (snd (Cache_set c k v (Some 0) t1 t2 t3))) k = Some e
               \<and> entry_value e = v \<and> expires e = ex"
    by (rule conjunct1, rule conjunct2)
next
  let ?c' = "snd (Cache_set c k v (Some 0) t1 t2 t3)"
  assume "\<not> truthy (default_ttl c)"
  then have ex: "compute_expires (py_or (Some 0) (default_ttl c)) t1 = Inr None"
    by (rule compute_expires_no_ttl)
  from set_stores [OF ex, of k v t2 t3]
  obtain e where ok: "fst (Cache_set c k v (Some 0) t1 t2 t3) = None"
    and e: "map_of (entries ?c') k = Some e" "entry_value e = v" "expires e = None"
    by (elim conjE exE)
  have live: "\<not> is_expired e g1" using e(3) by (simp add: is_expired_def)
  have g: "Cache_get ?c' k d g1 g2 =
      (entry_value e, ?c'\<lparr>entries := AList.update k (access e g2) (entries ?c'), hits := hits ?c' + 1\<rparr>)"
    using e(1) live by (rule get_hit)
  show "fst (Cache_set c k v (Some 0) t1 t2 t3) = None" by (rule ok)
  show "fst (Cache_get ?c' k d g1 g2) = v" unfolding g using e(2) by simp
  show "hits (snd (Cache_get ?c' k d g1 g2)) = hits c + 1" unfolding g by (simp add: set_frame)
  show "expirations (snd (Cache_get ?c' k d g1 g2)) = expirations c"
    unfolding g by (simp add: set_frame)
  show "misses (snd (Cache_get ?c' k d g1 g2)) = misses c" unfolding g by (simp add: set_frame)
qed

theorem set_ttl_zero_never_expires_witness:
  "fst (Cache_get (snd (Cache_set (fresh ''c'' 100 LRU None) ''k'' (Some (7::nat)) (Some 0) 10 11 12))
         ''k'' None 13 14) = Some 7
   \<and> hits (snd (Cache_get (snd (Cache_set (fresh ''c'' 100 LRU None) ''k'' (Some (7::nat)) (Some 0) 10 11 12))
         ''k'' None 13 14)) = 1
   \<and> expirations (snd (Cache_get (snd (Cache_set (fresh ''c'' 100 LRU None) ''k'' (Some (7::nat)) (Some 0) 10 11 12))
         ''k'' None 13 14)) = 0
   \<and> (\<exists>e. map_of (entries (snd (Cache_set (fresh ''c'' 100 LRU (Some 300)) ''k'' (Some (7::nat))
                (Some 0) 10 11 12))) ''k'' = Some e
          \<and> entry_value e = Some 7 \<and> expires e = Some 300000010)"
proof -
  let ?c = "fresh ''c'' 100 LRU None :: nat Cache"
  let ?d = "fresh ''c'' 100 LRU (Some 300) :: nat Cache"
  note t = set_ttl_zero_never_expires [of ?c "''k''" "Some 7" 10 11 12 None 13 14]
  note u = set_ttl_zero_never_expires [of ?d "''k''" "Some 7" 10 11 12 None 13 14]
  have h: "\<not> truthy (default_ttl ?c)" by (simp add: fresh_def)
  have x: "compute_expires (default_ttl ?d) 10 = Inr (Some 300000010)"
    by (simp add: fresh_def compute_expires_def timedelta_def datetime_add_def datetime_max_def)
  note a = t [THEN conjunct2, THEN conjunct2, THEN mp, OF h]
  note b = u [THEN conjunct2, THEN conjunct1, THEN spec, THEN mp, OF x, THEN conjunct2]
  have c0: "hits ?c = 0" "expirations ?c = 0" by (simp_all add: fresh_def)
  show ?thesis
    using a b unfolding c0 by simp
qed

subsection \<open>Stored None\<close>

text \<open>
  Claim C10. For a key that is present and not expired and whose stored value is \<open>None\<close>,
  \<open>key in cache\<close> is \<open>False\<close> and \<open>cache[key]\<close> raises \<open>KeyError\<close>, although
  \<open>get(key, default)\<close> with a default other than \<open>None\<close> tells the key from an absent one:
  it returns \<open>None\<close> for the present key and the default for an absent key.
\<close>

theorem stored_none_looks_absent:
  assumes "map_of (entries c) k = Some e" and "\<not> is_expired e t1" and "entry_value e = None"
    and "map_of (entries c) k' = None"
  shows "fst (Cache_contains c k t1 t2) = False
       \<and> fst (Cache_getitem c k t1 t2) = Inl (KeyError k)
       \<and> fst (Cache_get c k (Some d) t1 t2) = None
       \<and> fst (Cache_get c k' (Some d) t1 t2) = Some d"
  unfolding Cache_contains_def Cache_getitem_def
    get_hit [OF assms(1) assms(2)] get_miss [OF assms(4)]
  using assms(3) by simp

theorem stored_none_looks_absent_witness:
  "fst (Cache_contains (snd (Cache_set (fresh ''c'' 100 LRU None) ''k'' (None :: nat option) None 10 11 12))
         ''k'' 13 14) = False
   \<and> fst (Cache_getitem (snd (Cache_set (fresh ''c'' 100 LRU None) ''k'' (None :: nat option) None 10 11 12))
         ''k'' 13 14) = Inl (KeyError ''k'')
   \<and> fst (Cache_get (snd (Cache_set (fresh ''c'' 100 LRU None) ''k'' (None :: nat option) None 10 11 12))
         ''k'' (Some 5) 13 14) = None
   \<and> fst (Cache_get (snd (Cache_set (fresh ''c'' 100 LRU None) ''k'' (None :: nat option) None 10 11 12))
         ''z'' (Some 5) 13 14) = Some 5"
proof -
  let ?c = "snd (Cache_set (fresh ''c'' 100 LRU None) ''k'' (None :: nat option) None 10 11 12)"
  let ?e = "\<lparr>key = ''k'', entry_value = (None :: nat option), created = 11, last_accessed = 12,
             access_count = 0, expires = None\<rparr>"
  have c: "entries ?c = [(''k'', ?e)]"
    by (simp add: Cache_set_def fresh_def len_entries_def compute_expires_def py_or_def)
  have m: "map_of (entries ?c) ''k'' = Some ?e" unfolding c by simp
  have z: "map_of (entries ?c) ''z'' = None" unfolding c by simp
  have x: "\<not> is_expired ?e 13" by (simp add: is_expired_def)
  have v: "entry_value ?e = None" by simp
  show ?thesis
    using stored_none_looks_absent [OF m x v z, of 14 5] by simp
qed

subsection \<open>Construction\<close>

text \<open>
  Claim C5, as stated: a negative \<open>max_size\<close> is rejected by the constructor. The code
  does not: \<open>Cache("c", max_size=-1)\<close> returns a cache.
\<close>

theorem negative_max_size_counterexample:
  "(Cache_init ''c'' (- 1) LRU None :: py_error + nat Cache) =
     Inr \<lparr>name = ''c'', max_size = - 1, policy = LRU, default_ttl = None, entries = [],
          hits = 0, misses = 0, sets = 0, evictions = 0, expirations = 0\<rparr>"
  by (simp add: Cache_init_def fresh_def)

subsection \<open>Sequences of calls: what a call can do to the size and the counters\<close>

lemma len_get_le: "len_entries (snd (Cache_get c k d t1 t2)) \<le> len_entries c"
proof (cases "map_of (entries c) k")
  case None
  then show ?thesis by (simp add: get_miss len_entries_def)
next
  case (Some e)
  show ?thesis
  proof (cases "is_expired e t1")
    case True
    have "length (AList.delete k (entries c)) \<le> length (entries c)" by (rule length_delete_le)
    then show ?thesis by (simp add: get_expired [OF Some True] len_entries_def)
  next
    case False
    have "length (AList.update k (access e t2) (entries c)) = length (entries c)"
      using Some by (rule length_update_present)
    then show ?thesis by (simp add: get_hit [OF Some False] len_entries_def)
  qed
qed

lemma len_delete_le: "len_entries (snd (Cache_delete c k)) \<le> len_entries c"
proof (cases "map_of (entries c) k")
  case None
  then show ?thesis by (simp add: Cache_delete_def)
next
  case (Some e)
  have "length (AList.delete k (entries c)) \<le> length (entries c)" by (rule length_delete_le)
  then show ?thesis using Some by (simp add: Cache_delete_def len_entries_def)
qed

lemma get_frame:
  "max_size (snd (Cache_get c k d t1 t2)) = max_size c"
  "evictions (snd (Cache_get c k d t1 t2)) = evictions c"
  by (simp_all add: Cache_get_def split: option.splits)

lemma delete_frame:
  "max_size (snd (Cache_delete c k)) = max_size c"
  "hits (snd (Cache_delete c k)) = hits c"
  "misses (snd (Cache_delete c k)) = misses c"
  "expirations (snd (Cache_delete c k)) = expirations c"
  by (simp_all add: Cache_delete_def split: option.splits)

text \<open>
  After \<open>set\<close> the size is at most the larger of the size before and \<open>max_size\<close>, and in
  any case at most 1 when both are smaller: an insertion into an empty dict is never
  preceded by an eviction.
\<close>

lemma len_set_bound:
  assumes "len_entries c \<le> b" and "max_size c \<le> b" and "1 \<le> b"
  shows "len_entries (snd (Cache_set c k v ttl t1 t2 t3)) \<le> b"
proof -
  let ?c1 = "if len_entries c \<ge> max_size c \<and> map_of (entries c) k = None then Cache_evict c else c"
  have after: "len_entries (snd (Cache_set c k v ttl t1 t2 t3)) \<le>
      (case map_of (entries ?c1) k of Some e \<Rightarrow> len_entries ?c1 | None \<Rightarrow> len_entries ?c1 + 1)"
    unfolding Cache_set_def Let_def
    by (cases "compute_expires (py_or ttl (default_ttl ?c1)) t1"; cases "map_of (entries ?c1) k")
       (simp_all add: len_entries_def length_update_present length_update_absent)
  have c1_le: "len_entries ?c1 \<le> len_entries c" by (simp add: len_evict_le)
  show ?thesis
  proof (cases "map_of (entries ?c1) k")
    case (Some e)
    with after c1_le assms(1) show ?thesis by simp
  next
    case None
    show ?thesis
    proof (cases "len_entries c \<ge> max_size c \<and> map_of (entries c) k = None")
      case False
      then have eq: "?c1 = c" by (rule if_not_P)
      from None have absent: "map_of (entries c) k = None" unfolding eq .
      with False have "len_entries c < max_size c" by simp
      with after None assms(2) show ?thesis unfolding eq by simp
    next
      case True
      then have eq: "?c1 = Cache_evict c" by (rule if_P)
      show ?thesis
      proof (cases "entries c = []")
        case True
        then have "len_entries (Cache_evict c) = 0" by (simp add: evict_empty len_entries_def)
        with after None assms(3) show ?thesis unfolding eq by simp
      next
        case False
        then have "len_entries (Cache_evict c) < len_entries c" by (rule len_evict_less)
        with after None assms(1) show ?thesis unfolding eq by simp
      qed
    qed
  qed
qed

lemma snd_contains: "snd (Cache_contains c k t1 t2) = snd (Cache_get c k None t1 t2)"
  by (cases "Cache_get c k None t1 t2") (simp add: Cache_contains_def)

lemma snd_getitem: "snd (Cache_getitem c k t1 t2) = snd (Cache_get c k None t1 t2)"
proof (cases "Cache_get c k None t1 t2")
  case (Pair r c')
  then show ?thesis by (cases r) (simp_all add: Cache_getitem_def)
qed

lemma snd_delitem: "snd (Cache_delitem c k) = snd (Cache_delete c k)"
proof (cases "Cache_delete c k")
  case (Pair r c')
  then show ?thesis by (cases r) (simp_all add: Cache_delitem_def)
qed

lemmas step_unfold = step.simps snd_contains snd_getitem snd_delitem Cache_setitem_def

lemma step_max_size: "max_size (step c x) = max_size c"
  by (cases x) (simp_all add: step_unfold set_frame get_frame delete_frame Cache_clear_def)

lemma step_len_bound:
  assumes "len_entries c \<le> b" and "max_size c \<le> b" and "1 \<le> b"
  shows "len_entries (step c x) \<le> b"
proof (cases x)
  case (Get k d t1 t2)
  have "len_entries (snd (Cache_get c k d t1 t2)) \<le> len_entries c" by (rule len_get_le)
  with assms(1) show ?thesis unfolding Get by (simp add: step_unfold)
next
  case (Set k v ttl t1 t2 t3)
  show ?thesis unfolding Set step.simps using assms by (rule len_set_bound)
next
  case (Delete k)
  have "len_entries (snd (Cache_delete c k)) \<le> len_entries c" by (rule len_delete_le)
  with assms(1) show ?thesis unfolding Delete by (simp add: step_unfold)
next
  case Clear
  with assms(3) show ?thesis by (simp add: Cache_clear_def len_entries_def)
next
  case (Contains k t1 t2)
  have "len_entries (snd (Cache_get c k None t1 t2)) \<le> len_entries c" by (rule len_get_le)
  with assms(1) show ?thesis unfolding Contains by (simp add: step_unfold)
next
  case (GetItem k t1 t2)
  have "len_entries (snd (Cache_get c k None t1 t2)) \<le> len_entries c" by (rule len_get_le)
  with assms(1) show ?thesis unfolding GetItem by (simp add: step_unfold)
next
  case (SetItem k v t1 t2 t3)
  show ?thesis unfolding SetItem step.simps Cache_setitem_def using assms by (rule len_set_bound)
next
  case (DelItem k)
  have "len_entries (snd (Cache_delete c k)) \<le> len_entries c" by (rule len_delete_le)
  with assms(1) show ?thesis unfolding DelItem by (simp add: step_unfold)
next
  case GetStats
  with assms(1) show ?thesis by simp
qed

lemma run_len_bound:
  "len_entries c \<le> b \<Longrightarrow> max_size c \<le> b \<Longrightarrow> 1 \<le> b \<Longrightarrow> len_entries (run c xs) \<le> b"
proof (induction xs arbitrary: c)
  case Nil
  then show ?case by simp
next
  case (Cons x xs)
  have "len_entries (step c x) \<le> b"
    using Cons.prems by (rule step_len_bound)
  moreover have "max_size (step c x) \<le> b"
    using Cons.prems(2) by (simp add: step_max_size)
  ultimately have "len_entries (run (step c x) xs) \<le> b"
    using Cons.prems(3) by (rule Cons.IH)
  then show ?case by simp
qed

lemma get_counters:
  "hits (snd (Cache_get c k d t1 t2)) + misses (snd (Cache_get c k d t1 t2))
     + expirations (snd (Cache_get c k d t1 t2))
   = hits c + misses c + expirations c + 1"
proof (cases "map_of (entries c) k")
  case None
  then show ?thesis by (simp add: get_miss)
next
  case (Some e)
  then show ?thesis
    by (cases "is_expired e t1") (simp_all add: get_expired get_hit)
qed

lemma step_counters:
  "hits (step c x) + misses (step c x) + expirations (step c x)
   = hits c + misses c + expirations c + int (get_calls x)"
  by (cases x) (simp_all add: step_unfold get_counters set_frame delete_frame Cache_clear_def)

lemma run_counters:
  "hits (run c xs) + misses (run c xs) + expirations (run c xs)
   = hits c + misses c + expirations c + gets_made xs"
proof (induction xs arbitrary: c)
  case Nil
  then show ?case by (simp add: gets_made_def)
next
  case (Cons x xs)
  have "hits (run (step c x) xs) + misses (run (step c x) xs) + expirations (run (step c x) xs)
      = hits (step c x) + misses (step c x) + expirations (step c x) + gets_made xs"
    by (rule Cons.IH)
  also have "\<dots> = hits c + misses c + expirations c + int (get_calls x) + gets_made xs"
    by (simp only: step_counters)
  finally show ?case by (simp add: gets_made_def)
qed

lemma set_evictions:
  "evictions (snd (Cache_set c k v ttl t1 t2 t3)) =
   evictions (if len_entries c \<ge> max_size c \<and> map_of (entries c) k = None
              then Cache_evict c else c)"
  unfolding Cache_set_def Let_def
  by (simp split: sum.splits option.splits)

subsection \<open>Counting the gets\<close>

text \<open>
  Claim C3, as stated: after any sequence of calls \<open>hits + misses\<close> is the number of
  \<open>get\<close> calls made. The code does not keep this: a \<open>get\<close> that finds an expired entry
  returns before either counter is incremented. One \<open>set\<close> with a ttl of one second and one
  \<open>get\<close> five seconds later leave \<open>hits + misses = 0\<close> after one \<open>get\<close>.
\<close>

theorem hits_plus_misses_counterexample:
  "hits (run (fresh ''c'' 100 LRU None)
          [Set ''k'' (Some (7::nat)) (Some 1) 10 11 12, Get ''k'' None 5000000 5000001])
   + misses (run (fresh ''c'' 100 LRU None)
          [Set ''k'' (Some (7::nat)) (Some 1) 10 11 12, Get ''k'' None 5000000 5000001]) = 0
   \<and> gets_made [Set ''k'' (Some (7::nat)) (Some 1) 10 11 12, Get ''k'' None 5000000 5000001] = 1"
  by (simp add: gets_made_def Cache_get_def Cache_set_def fresh_def len_entries_def
      compute_expires_def py_or_def timedelta_def datetime_add_def datetime_max_def
      is_expired_def)

text \<open>
  Claim C3, amended. Every \<open>get\<close> increments exactly one of \<open>hits\<close>, \<open>misses\<close> and
  \<open>expirations\<close>, and nothing else changes them: after any sequence of calls on a new
  cache, \<open>hits + misses + expirations\<close> is the number of \<open>get\<close> calls made (those made
  through \<open>in\<close> and \<open>cache[key]\<close> included).
\<close>

theorem hits_misses_expirations_count_gets:
  "hits (run (fresh n ms p d) calls) + misses (run (fresh n ms p d) calls)
     + expirations (run (fresh n ms p d) calls)
   = gets_made calls"
  unfolding run_counters by (simp add: fresh_def)

subsection \<open>Capacity\<close>

text \<open>
  Claim C4. For a cache built with \<open>max_size > 0\<close>, after any sequence of calls (of \<open>set\<close>
  alone, or of any public method) the number of stored entries is at most \<open>max_size\<close>.
  Every prefix of a sequence is a sequence, so the bound holds after each call.
\<close>

theorem size_at_most_max_size:
  assumes "0 < ms"
  shows "len_entries (run (fresh n ms p d) calls) \<le> ms"
proof (rule run_len_bound)
  show "len_entries (fresh n ms p d) \<le> ms" using assms by (simp add: fresh_def len_entries_def)
  show "max_size (fresh n ms p d) \<le> ms" by (simp add: fresh_def)
  show "1 \<le> ms" using assms by simp
qed

theorem size_at_most_max_size_witness:
  "len_entries (run (fresh ''c'' 2 LRU None)
     [Set ''A'' (Some (1::nat)) None 10 11 12, Set ''B'' (Some 2) None 20 21 22,
      Set ''C'' (Some 3) None 30 31 32]) \<le> 2"
proof -
  have h: "(0::int) < 2" by simp
  show ?thesis by (rule size_at_most_max_size [OF h])
qed

text \<open>
  Claim C1, as stated: with \<open>max_size = 0\<close> the cache is unbounded, no eviction happens and
  every inserted entry stays. The code does not: \<open>len(self._entries) >= 0\<close> is always
  true, so the second \<open>set\<close> of a new key evicts the first entry.
\<close>

theorem max_size_zero_counterexample:
  "evictions (run (fresh ''c'' 0 LRU None)
      [Set ''a'' (Some (1::nat)) None 10 11 12, Set ''b'' (Some 2) None 20 21 22]) = 1
   \<and> map_of (entries (run (fresh ''c'' 0 LRU None)
      [Set ''a'' (Some (1::nat)) None 10 11 12, Set ''b'' (Some 2) None 20 21 22])) ''a'' = None
   \<and> len_entries (run (fresh ''c'' 0 LRU None)
      [Set ''a'' (Some (1::nat)) None 10 11 12, Set ''b'' (Some 2) None 20 21 22]) = 1"
  by (simp add: Cache_set_def Cache_evict_def key_to_evict_def fresh_def len_entries_def
      compute_expires_def py_or_def)

text \<open>
  Claim C1, amended. With \<open>max_size = 0\<close> the cache is not unbounded: a \<open>set\<close> of a key
  that is not present, on a cache that is not empty, invokes the eviction policy
  (\<open>evictions\<close> grows by 1 and the size does not grow), so after any sequence of calls on a
  new cache at most one entry is stored.
\<close>

theorem max_size_zero_evicts:
  assumes "max_size c = 0" and "map_of (entries c) k = None" and "entries c \<noteq> []"
  shows "evictions (snd (Cache_set c k v ttl t1 t2 t3)) = evictions c + 1
       \<and> len_entries (snd (Cache_set c k v ttl t1 t2 t3)) \<le> len_entries c
       \<and> len_entries (run (fresh n 0 p d) calls) \<le> 1"
proof -
  have full: "len_entries c \<ge> max_size c \<and> map_of (entries c) k = None"
    using assms(1,2) by (simp add: len_entries_def)
  have ev: "evictions (snd (Cache_set c k v ttl t1 t2 t3)) = evictions c + 1"
    unfolding set_evictions if_P [OF full] using assms(3) by (rule evictions_evict)
  have pos: "1 \<le> len_entries c"
    using assms(3) by (cases "entries c") (simp_all add: len_entries_def)
  have "max_size c \<le> len_entries c" using full by simp
  with pos have len: "len_entries (snd (Cache_set c k v ttl t1 t2 t3)) \<le> len_entries c"
    by (intro len_set_bound) simp_all
  have "len_entries (run (fresh n 0 p d) calls) \<le> 1"
    by (rule run_len_bound) (simp_all add: fresh_def len_entries_def)
  with ev len show ?thesis by simp
qed

theorem max_size_zero_evicts_witness:
  "evictions (snd (Cache_set (snd (Cache_set (fresh ''c'' 0 LRU None) ''a'' (Some (1::nat)) None 10 11 12))
       ''b'' (Some 2) None 20 21 22)) = 1
   \<and> len_entries (snd (Cache_set (snd (Cache_set (fresh ''c'' 0 LRU None) ''a'' (Some (1::nat)) None 10 11 12))
       ''b'' (Some 2) None 20 21 22)) \<le> 1"
proof -
  let ?c = "snd (Cache_set (fresh ''c'' 0 LRU None) ''a'' (Some (1::nat)) None 10 11 12)"
  have c: "?c = \<lparr>name = ''c'', max_size = 0, policy = LRU, default_ttl = None,
        entries = [(''a'', \<lparr>key = ''a'', entry_value = Some 1, created = 11, last_accessed = 12,
                               access_count = 0, expires = None\<rparr>)],
        hits = 0, misses = 0, sets = 1, evictions = 0, expirations = 0\<rparr>"
    by (simp add: Cache_set_def fresh_def len_entries_def compute_expires_def py_or_def evict_empty)
  have h1: "max_size ?c = 0" unfolding c by simp
  have h2: "map_of (entries ?c) ''b'' = None" unfolding c by simp
  have h3: "entries ?c \<noteq> []" unfolding c by simp
  have e0: "evictions ?c = 0" unfolding c by simp
  have l1: "len_entries ?c = 1" unfolding c by (simp add: len_entries_def)
  note t = max_size_zero_evicts [OF h1 h2 h3, of "Some 2" None 20 21 22 "''c''" LRU None "[]"]
  have a: "evictions (snd (Cache_set ?c ''b'' (Some 2) None 20 21 22)) = evictions ?c + 1"
    using t by (rule conjunct1)
  have b: "len_entries (snd (Cache_set ?c ''b'' (Some 2) None 20 21 22)) \<le> len_entries ?c"
    using t by (rule conjunct1 [OF conjunct2])
  show ?thesis
    using a b unfolding e0 l1 by simp
qed

text \<open>
  Claim C5, amended. A negative \<open>max_size\<close> is accepted: the constructor raises nothing
  and stores the number as it is. The configuration shows at run time, where the cache
  never holds more than one entry.
\<close>

theorem negative_max_size_accepted:
  assumes "ms < 0"
  shows "Cache_init n ms p d = Inr (fresh n ms p d)
       \<and> max_size (fresh n ms p d) = ms
       \<and> len_entries (run (fresh n ms p d) calls) \<le> 1"
proof -
  have "len_entries (run (fresh n ms p d) calls) \<le> 1"
    by (rule run_len_bound) (use assms in \<open>simp_all add: fresh_def len_entries_def\<close>)
  then show ?thesis by (simp add: Cache_init_def fresh_def)
qed

theorem negative_max_size_accepted_witness:
  "(Cache_init ''c'' (- 1) LRU None :: py_error + nat Cache) = Inr (fresh ''c'' (- 1) LRU None)
   \<and> max_size (fresh ''c'' (- 1) LRU None :: nat Cache) = - 1
   \<and> len_entries (run (fresh ''c'' (- 1) LRU None)
        [Set ''a'' (Some (1::nat)) None 10 11 12, Set ''b'' (Some 2) None 20 21 22]) \<le> 1"
proof -
  have h: "(- 1 :: int) < 0" by simp
  show ?thesis by (rule negative_max_size_accepted [OF h])
qed

subsection \<open>Overwriting a present key\<close>

lemma set_present:
  assumes "map_of (entries c) k = Some e"
  shows "Cache_set c k v ttl t1 t2 t3 =
     (case compute_expires (py_or ttl (default_ttl c)) t1 of
        Inl err \<Rightarrow> (Some err, c)
      | Inr ex \<Rightarrow>
          (None,
           c\<lparr>entries := AList.update k (access (e\<lparr>entry_value := v, expires := ex\<rparr>) t2) (entries c),
             sets := sets c + 1\<rparr>))"
  unfolding Cache_set_def Let_def using assms
  by (simp split: sum.splits)

text \<open>
  Claim C8. A \<open>set\<close> on a key that is already present (at capacity or not) never evicts
  and never changes the size: \<open>evictions\<close>, the number of entries and the order of the keys
  are as before. When the call returns normally the entry of the key holds the new value
  and the new expiry, its creation time is kept, and it has been touched; when the expiry
  computation raises, the cache is as it was.
\<close>

theorem set_present_key_updates_in_place:
  assumes "map_of (entries c) k = Some e"
  shows "evictions (snd (Cache_set c k v ttl t1 t2 t3)) = evictions c
       \<and> len_entries (snd (Cache_set c k v ttl t1 t2 t3)) = len_entries c
       \<and> map fst (entries (snd (Cache_set c k v ttl t1 t2 t3))) = map fst (entries c)
       \<and> (case compute_expires (py_or ttl (default_ttl c)) t1 of
            Inr ex \<Rightarrow>
              fst (Cache_set c k v ttl t1 t2 t3) = None
              \<and> map_of (entries (snd (Cache_set c k v ttl t1 t2 t3))) k =
                  Some (e\<lparr>entry_value := v, expires := ex, last_accessed := t2,
                          access_count := access_count e + 1\<rparr>)
          | Inl err \<Rightarrow> Cache_set c k v ttl t1 t2 t3 = (Some err, c))"
proof (cases "compute_expires (py_or ttl (default_ttl c)) t1")
  case (Inl err)
  show ?thesis unfolding set_present [OF assms] Inl by simp
next
  case (Inr ex)
  have len: "length (AList.update k e' (entries c)) = length (entries c)" for e'
    using assms by (rule length_update_present)
  have keys: "map fst (AList.update k e' (entries c)) = map fst (entries c)" for e'
    using assms by (rule keys_update_present)
  show ?thesis
    unfolding set_present [OF assms] Inr
    by (simp add: len keys len_entries_def update_conv' access_def)
qed

theorem set_present_key_updates_in_place_witness:
  "evictions (snd (Cache_set (snd (Cache_set (fresh ''c'' 1 LRU None) ''a'' (Some (1::nat)) None 10 11 12))
       ''a'' (Some 2) (Some 60) 20 21 22)) = 0
   \<and> len_entries (snd (Cache_set (snd (Cache_set (fresh ''c'' 1 LRU None) ''a'' (Some (1::nat)) None 10 11 12))
       ''a'' (Some 2) (Some 60) 20 21 22)) = 1
   \<and> map_of (entries (snd (Cache_set (snd (Cache_set (fresh ''c'' 1 LRU None) ''a'' (Some (1::nat)) None 10 11 12))
       ''a'' (Some 2) (Some 60) 20 21 22))) ''a'' =
       Some \<lparr>key = ''a'', entry_value = Some 2, created = 11, last_accessed = 21,
             access_count = 1, expires = Some 60000020\<rparr>"
proof -
  let ?e = "\<lparr>key = ''a'', entry_value = Some (1::nat), created = 11, last_accessed = 12,
             access_count = 0, expires = None\<rparr>"
  let ?c = "snd (Cache_set (fresh ''c'' 1 LRU None) ''a'' (Some (1::nat)) None 10 11 12)"
  have c: "?c = \<lparr>name = ''c'', max_size = 1, policy = LRU, default_ttl = None,
        entries = [(''a'', ?e)],
        hits = 0, misses = 0, sets = 1, evictions = 0, expirations = 0\<rparr>"
    by (simp add: Cache_set_def fresh_def len_entries_def compute_expires_def py_or_def)
  have m: "map_of (entries ?c) ''a'' = Some ?e" unfolding c by simp
  have x: "compute_expires (py_or (Some 60) (default_ttl ?c)) 20 = Inr (Some 60000020)"
    unfolding c
    by (simp add: compute_expires_def py_or_def timedelta_def datetime_add_def datetime_max_def)
  have e0: "evictions ?c = 0" unfolding c by simp
  have l1: "len_entries ?c = 1" unfolding c by (simp add: len_entries_def)
  note t = set_present_key_updates_in_place [OF m, of "Some 2" "Some 60" 20 21 22]
  show ?thesis
    using t unfolding x e0 l1 by simp
qed

subsection \<open>Least recently used\<close>

lemma lru_scenario:
  assumes "a \<noteq> b" and "a \<noteq> k" and "b \<noteq> k" and "u3 < g2"
  shows "map fst (entries (run (fresh n 2 LRU None)
            [Set a va None s1 s2 s3, Set b vb None u1 u2 u3, Get a d g1 g2,
             Set k vk None w1 w2 w3])) = [a, k]
       \<and> evictions (run (fresh n 2 LRU None)
            [Set a va None s1 s2 s3, Set b vb None u1 u2 u3, Get a d g1 g2,
             Set k vk None w1 w2 w3]) = 1"
proof -
  have ne: "b \<noteq> a" "k \<noteq> a" "k \<noteq> b" using assms(1-3) by simp_all
  show ?thesis
    using assms ne
    by (simp add: Cache_set_def Cache_get_def Cache_evict_def key_to_evict_def fresh_def
        len_entries_def compute_expires_def py_or_def is_expired_def access_def)
qed

lemma lru_scenario_not_later:
  assumes "a \<noteq> b" and "a \<noteq> k" and "b \<noteq> k" and "g2 \<le> u3"
  shows "map fst (entries (run (fresh n 2 LRU None)
            [Set a va None s1 s2 s3, Set b vb None u1 u2 u3, Get a d g1 g2,
             Set k vk None w1 w2 w3])) = [b, k]
       \<and> evictions (run (fresh n 2 LRU None)
            [Set a va None s1 s2 s3, Set b vb None u1 u2 u3, Get a d g1 g2,
             Set k vk None w1 w2 w3]) = 1"
proof -
  have ne: "b \<noteq> a" "k \<noteq> a" "k \<noteq> b" using assms(1-3) by simp_all
  show ?thesis
    using assms ne
    by (simp add: Cache_set_def Cache_get_def Cache_evict_def key_to_evict_def fresh_def
        len_entries_def compute_expires_def py_or_def is_expired_def access_def)
qed

lemma set_entries_other:
  "k' \<noteq> k \<Longrightarrow>
   map_of (entries (snd (Cache_set c k v ttl t1 t2 t3))) k' =
   map_of (entries (if len_entries c \<ge> max_size c \<and> map_of (entries c) k = None
                    then Cache_evict c else c)) k'"
  unfolding Cache_set_def Let_def
  by (simp add: update_conv' split: sum.splits option.splits)

lemma lru_victim:
  assumes "distinct (map fst (entries c))" and "entries c = x # xs"
  shows "map_of (entries c) (key_to_evict LRU x xs)
           = Some (snd (min_from (\<lambda>ke. last_accessed (snd ke)) x xs))
       \<and> (\<forall>ke \<in> set (entries c).
            last_accessed (snd (min_from (\<lambda>ke. last_accessed (snd ke)) x xs))
              \<le> last_accessed (snd ke))"
proof -
  let ?m = "min_from (\<lambda>ke. last_accessed (snd ke)) x xs"
  have mem: "?m \<in> set (entries c)" unfolding assms(2) by (rule min_from_mem)
  then have "(fst ?m, snd ?m) \<in> set (entries c)" by simp
  with assms(1) have "map_of (entries c) (fst ?m) = Some (snd ?m)"
    by (rule map_of_is_SomeI)
  moreover have "last_accessed (snd ?m) \<le> last_accessed (snd ke)" if "ke \<in> set (entries c)" for ke
    using that unfolding assms(2) by (rule min_from_least)
  ultimately show ?thesis by (simp add: key_to_evict_def)
qed

lemma lru_overflow:
  assumes "policy c = LRU" and "distinct (map fst (entries c))" and "entries c \<noteq> []"
    and "map_of (entries c) k = None" and "max_size c \<le> len_entries c"
  shows "\<exists>victim ev.
           map_of (entries c) victim = Some ev
         \<and> (\<forall>ke \<in> set (entries c). last_accessed ev \<le> last_accessed (snd ke))
         \<and> map_of (entries (snd (Cache_set c k v ttl t1 t2 t3))) victim = None
         \<and> (\<forall>k'. k' \<noteq> victim \<and> k' \<noteq> k \<longrightarrow>
               map_of (entries (snd (Cache_set c k v ttl t1 t2 t3))) k' = map_of (entries c) k')
         \<and> evictions (snd (Cache_set c k v ttl t1 t2 t3)) = evictions c + 1"
proof -
  from assms(3) obtain x xs where xs: "entries c = x # xs" by (cases "entries c") auto
  let ?victim = "key_to_evict LRU x xs"
  let ?ev = "snd (min_from (\<lambda>ke. last_accessed (snd ke)) x xs)"
  let ?c' = "snd (Cache_set c k v ttl t1 t2 t3)"
  have full: "len_entries c \<ge> max_size c \<and> map_of (entries c) k = None"
    using assms(4,5) by simp
  from lru_victim [OF assms(2) xs]
  have stored: "map_of (entries c) ?victim = Some ?ev"
    and least: "\<forall>ke \<in> set (entries c). last_accessed ?ev \<le> last_accessed (snd ke)"
    by (rule conjunct1, rule conjunct2)
  have ne: "?victim \<noteq> k" using stored assms(4) by auto
  have ev: "entries (Cache_evict c) = AList.delete ?victim (entries c)"
    using entries_evict [OF xs] unfolding assms(1) .
  have other: "map_of (entries ?c') k' = map_of (AList.delete ?victim (entries c)) k'"
    if "k' \<noteq> k" for k'
    using set_entries_other [OF that, of c v ttl t1 t2 t3] unfolding if_P [OF full] ev .
  have gone: "map_of (entries ?c') ?victim = None"
    unfolding other [OF ne] by (simp add: delete_conv')
  have kept: "\<forall>k'. k' \<noteq> ?victim \<and> k' \<noteq> k \<longrightarrow> map_of (entries ?c') k' = map_of (entries c) k'"
    by (simp add: other delete_conv')
  have count: "evictions ?c' = evictions c + 1"
    unfolding set_evictions if_P [OF full] using assms(3) by (rule evictions_evict)
  from stored least gone kept count show ?thesis by (intro exI conjI)
qed

text \<open>
  Claim C6, as stated: with \<open>max_size = 2\<close> and policy LRU, inserting A and B, reading A
  and inserting C evicts B and not A. The code does not whenever the reading of
  \<open>datetime.now()\<close> in the read of A is not later than the one that stamped B: the two
  \<open>last_accessed\<close> are then equal (or A's is the older), \<open>min\<close> returns the first key in
  insertion order, and A is evicted while B stays.
\<close>

theorem lru_equal_timestamps_counterexample:
  "map fst (entries (run (fresh ''c'' 2 LRU None)
      [Set ''A'' (Some (1::nat)) None 10 11 12, Set ''B'' (Some 2) None 20 21 22,
       Get ''A'' None 22 22, Set ''C'' (Some 3) None 40 41 42])) = [''B'', ''C'']
   \<and> map_of (entries (run (fresh ''c'' 2 LRU None)
      [Set ''A'' (Some (1::nat)) None 10 11 12, Set ''B'' (Some 2) None 20 21 22,
       Get ''A'' None 22 22, Set ''C'' (Some 3) None 40 41 42])) ''A'' = None"
  by (simp add: Cache_set_def Cache_get_def Cache_evict_def key_to_evict_def fresh_def
      len_entries_def compute_expires_def py_or_def is_expired_def access_def)

text \<open>
  Claim C6, amended. With \<open>max_size = 2\<close> and policy LRU, inserting keys A and B, reading
  A and inserting a new key C evicts B and keeps A when the clock reading taken by the
  read of A is later than the \<open>last_accessed\<close> reading of the insertion of B; when it is
  not later, A is evicted and B is kept. In general, a \<open>set\<close> of a new key on a full,
  non-empty LRU cache removes exactly one entry, one whose \<open>last_accessed\<close> is smallest,
  keeps every other entry as it was, and adds 1 to \<open>evictions\<close>.
\<close>

theorem lru_evicts_least_recently_used:
  "(a \<noteq> b \<and> a \<noteq> k \<and> b \<noteq> k \<and> u3 < g2 \<longrightarrow>
      map fst (entries (run (fresh n 2 LRU None)
          [Set a va None s1 s2 s3, Set b vb None u1 u2 u3, Get a d g1 g2,
           Set k vk None w1 w2 w3])) = [a, k]
    \<and> evictions (run (fresh n 2 LRU None)
          [Set a va None s1 s2 s3, Set b vb None u1 u2 u3, Get a d g1 g2,
           Set k vk None w1 w2 w3]) = 1)
   \<and> (a \<noteq> b \<and> a \<noteq> k \<and> b \<noteq> k \<and> g2 \<le> u3 \<longrightarrow>
      map fst (entries (run (fresh n 2 LRU None)
          [Set a va None s1 s2 s3, Set b vb None u1 u2 u3, Get a d g1 g2,
           Set k vk None w1 w2 w3])) = [b, k]
    \<and> evictions (run (fresh n 2 LRU None)
          [Set a va None s1 s2 s3, Set b vb None u1 u2 u3, Get a d g1 g2,
           Set k vk None w1 w2 w3]) = 1)
   \<and> (policy c = LRU \<and> distinct (map fst (entries c)) \<and> entries c \<noteq> []
        \<and> map_of (entries c) k = None \<and> max_size c \<le> len_entries c \<longrightarrow>
      (\<exists>victim ev.
           map_of (entries c) victim = Some ev
         \<and> (\<forall>ke \<in> set (entries c). last_accessed ev \<le> last_accessed (snd ke))
         \<and> map_of (entries (snd (Cache_set c k v ttl t1 t2 t3))) victim = None
         \<and> (\<forall>k'. k' \<noteq> victim \<and> k' \<noteq> k \<longrightarrow>
               map_of (entries (snd (Cache_set c k v ttl t1 t2 t3))) k' = map_of (entries c) k')
         \<and> evictions (snd (Cache_set c k v ttl t1 t2 t3)) = evictions c + 1))"
proof (intro conjI impI)
  assume "a \<noteq> b \<and> a \<noteq> k \<and> b \<noteq> k \<and> u3 < g2"
  then have h: "a \<noteq> b" "a \<noteq> k" "b \<noteq> k" "u3 < g2" by simp_all
  from lru_scenario [OF h]
  show "map fst (entries (run (fresh n 2 LRU None)
          [Set a va None s1 s2 s3, Set b vb None u1 u2 u3, Get a d g1 g2,
           Set k vk None w1 w2 w3])) = [a, k]"
    and "evictions (run (fresh n 2 LRU None)
          [Set a va None s1 s2 s3, Set b vb None u1 u2 u3, Get a d g1 g2,
           Set k vk None w1 w2 w3]) = 1"
    by (rule conjunct1, rule conjunct2)
next
  assume "a \<noteq> b \<and> a \<noteq> k \<and> b \<noteq> k \<and> g2 \<le> u3"
  then have h: "a \<noteq> b" "a \<noteq> k" "b \<noteq> k" "g2 \<le> u3" by simp_all
  from lru_scenario_not_later [OF h]
  show "map fst (entries (run (fresh n 2 LRU None)
          [Set a va None s1 s2 s3, Set b vb None u1 u2 u3, Get a d g1 g2,
           Set k vk None w1 w2 w3])) = [b, k]"
    and "evictions (run (fresh n 2 LRU None)
          [Set a va None s1 s2 s3, Set b vb None u1 u2 u3, Get a d g1 g2,
           Set k vk None w1 w2 w3]) = 1"
    by (rule conjunct1, rule conjunct2)
next
  assume "policy c = LRU \<and> distinct (map fst (entries c)) \<and> entries c \<noteq> []
        \<and> map_of (entries c) k = None \<and> max_size c \<le> len_entries c"
  then have h: "policy c = LRU" "distinct (map fst (entries c))" "entries c \<noteq> []"
    "map_of (entries c) k = None" "max_size c \<le> len_entries c" by simp_all
  show "\<exists>victim ev.
           map_of (entries c) victim = Some ev
         \<and> (\<forall>ke \<in> set (entries c). last_accessed ev \<le> last_accessed (snd ke))
         \<and> map_of (entries (snd (Cache_set c k v ttl t1 t2 t3))) victim = None
         \<and> (\<forall>k'. k' \<noteq> victim \<and> k' \<noteq> k \<longrightarrow>
               map_of (entries (snd (Cache_set c k v ttl t1 t2 t3))) k' = map_of (entries c) k')
         \<and> evictions (snd (Cache_set c k v ttl t1 t2 t3)) = evictions c + 1"
    using h by (rule lru_overflow)
qed

theorem lru_evicts_least_recently_used_witness:
  "map fst (entries (run (fresh ''c'' 2 LRU None)
      [Set ''A'' (Some (1::nat)) None 10 11 12, Set ''B'' (Some 2) None 20 21 22,
       Get ''A'' None 30 31, Set ''C'' (Some 3) None 40 41 42])) = [''A'', ''C'']
   \<and> evictions (run (fresh ''c'' 2 LRU None)
      [Set ''A'' (Some (1::nat)) None 10 11 12, Set ''B'' (Some 2) None 20 21 22,
       Get ''A'' None 30 31, Set ''C'' (Some 3) None 40 41 42]) = 1
   \<and> map fst (entries (run (fresh ''c'' 2 LRU None)
      [Set ''A'' (Some (1::nat)) None 10 11 12, Set ''B'' (Some 2) None 20 21 31,
       Get ''A'' None 30 31, Set ''C'' (Some 3) None 40 41 42])) = [''B'', ''C'']
   \<and> (\<exists>victim ev.
         map_of (entries (run (fresh ''c'' 2 LRU None)
            [Set ''A'' (Some (1::nat)) None 10 11 12, Set ''B'' (Some 2) None 20 21 22,
             Get ''A'' None 30 31])) victim = Some ev
       \<and> (\<forall>ke \<in> set (entries (run (fresh ''c'' 2 LRU None)
            [Set ''A'' (Some (1::nat)) None 10 11 12, Set ''B'' (Some 2) None 20 21 22,
             Get ''A'' None 30 31])). last_accessed ev \<le> last_accessed (snd ke))
       \<and> map_of (entries (snd (Cache_set (run (fresh ''c'' 2 LRU None)
            [Set ''A'' (Some (1::nat)) None 10 11 12, Set ''B'' (Some 2) None 20 21 22,
             Get ''A'' None 30 31]) ''C'' (Some 3) None 40 41 42))) victim = None
       \<and> (\<forall>k'. k' \<noteq> victim \<and> k' \<noteq> ''C'' \<longrightarrow>
             map_of (entries (snd (Cache_set (run (fresh ''c'' 2 LRU None)
                [Set ''A'' (Some (1::nat)) None 10 11 12, Set ''B'' (Some 2) None 20 21 22,
                 Get ''A'' None 30 31]) ''C'' (Some 3) None 40 41 42))) k'
             = map_of (entries (run (fresh ''c'' 2 LRU None)
                [Set ''A'' (Some (1::nat)) None 10 11 12, Set ''B'' (Some 2) None 20 21 22,
                 Get ''A'' None 30 31])) k')
       \<and> evictions (snd (Cache_set (run (fresh ''c'' 2 LRU None)
            [Set ''A'' (Some (1::nat)) None 10 11 12, Set ''B'' (Some 2) None 20 21 22,
             Get ''A'' None 30 31]) ''C'' (Some 3) None 40 41 42))
         = evictions (run (fresh ''c'' 2 LRU None)
            [Set ''A'' (Some (1::nat)) None 10 11 12, Set ''B'' (Some 2) None 20 21 22,
             Get ''A'' None 30 31]) + 1)"
proof -
  let ?c = "run (fresh ''c'' 2 LRU None)
      [Set ''A'' (Some (1::nat)) None 10 11 12, Set ''B'' (Some 2) None 20 21 22,
       Get ''A'' None 30 31]"
  have c: "?c = \<lparr>name = ''c'', max_size = 2, policy = LRU, default_ttl = None,
      entries = [(''A'', \<lparr>key = ''A'', entry_value = Some 1, created = 11, last_accessed = 31,
                          access_count = 1, expires = None\<rparr>),
                 (''B'', \<lparr>key = ''B'', entry_value = Some 2, created = 21, last_accessed = 22,
                          access_count = 0, expires = None\<rparr>)],
      hits = 1, misses = 0, sets = 2, evictions = 0, expirations = 0\<rparr>"
    by (simp add: Cache_set_def Cache_get_def fresh_def len_entries_def compute_expires_def
        py_or_def is_expired_def access_def)
  note t = lru_evicts_least_recently_used
    [where a = "''A''" and b = "''B''" and k = "''C''" and ?u3.0 = 22 and ?g2.0 = 31
       and n = "''c''" and va = "Some 1" and ?s1.0 = 10 and ?s2.0 = 11 and ?s3.0 = 12
       and vb = "Some 2" and ?u1.0 = 20 and ?u2.0 = 21 and d = None and ?g1.0 = 30
       and vk = "Some 3" and ?w1.0 = 40 and ?w2.0 = 41 and ?w3.0 = 42
       and c = ?c and v = "Some 3" and ttl = None and ?t1.0 = 40 and ?t2.0 = 41 and ?t3.0 = 42]
  note t' = lru_evicts_least_recently_used
    [where a = "''A''" and b = "''B''" and k = "''C''" and ?u3.0 = 31 and ?g2.0 = 31
       and n = "''c''" and va = "Some 1" and ?s1.0 = 10 and ?s2.0 = 11 and ?s3.0 = 12
       and vb = "Some 2" and ?u1.0 = 20 and ?u2.0 = 21 and d = None and ?g1.0 = 30
       and vk = "Some 3" and ?w1.0 = 40 and ?w2.0 = 41 and ?w3.0 = 42
       and c = ?c and v = "Some 3" and ttl = None and ?t1.0 = 40 and ?t2.0 = 41 and ?t3.0 = 42]
  have s: "''A'' \<noteq> ''B'' \<and> ''A'' \<noteq> ''C'' \<and> ''B'' \<noteq> ''C'' \<and> (22::int) < 31" by simp
  have s': "''A'' \<noteq> ''B'' \<and> ''A'' \<noteq> ''C'' \<and> ''B'' \<noteq> ''C'' \<and> (31::int) \<le> 31" by simp
  have g: "policy ?c = LRU \<and> distinct (map fst (entries ?c)) \<and> entries ?c \<noteq> []
        \<and> map_of (entries ?c) ''C'' = None \<and> max_size ?c \<le> len_entries ?c"
    unfolding c by (simp add: len_entries_def)
  note first = t [THEN conjunct1, THEN mp, OF s]
  note tie = t' [THEN conjunct2, THEN conjunct1, THEN mp, OF s']
  note general = t [THEN conjunct2, THEN conjunct2, THEN mp, OF g]
  show ?thesis
    by (intro conjI)
       (rule first [THEN conjunct1], rule first [THEN conjunct2], rule tie [THEN conjunct1],
        rule general)
qed

section \<open>The hit rate\<close>

subsection \<open>Decimal numerals\<close>

lemma digit_value_nth: "d < 10 \<Longrightarrow> digit_value (''0123456789'' ! d) = Some d"
proof -
  assume "d < 10"
  then consider "d = 0" | "d = 1" | "d = 2" | "d = 3" | "d = 4" | "d = 5" | "d = 6"
    | "d = 7" | "d = 8" | "d = 9" by atomize_elim arith
  then show ?thesis by cases simp_all
qed

lemma read_digits_append:
  "read_digits acc (s @ [ch]) =
     (case read_digits acc s of
        None \<Rightarrow> None
      | Some n \<Rightarrow> (case digit_value ch of None \<Rightarrow> None | Some d \<Rightarrow> Some (10 * n + d)))"
  by (induction s arbitrary: acc) (simp_all split: option.splits)

lemma str_nat_nonempty: "str_nat n \<noteq> []"
  by (subst str_nat.simps) simp

lemma read_digits_str_nat: "read_digits 0 (str_nat n) = Some n"
proof (induction n rule: str_nat.induct)
  case (1 n)
  show ?case
  proof (cases "n < 10")
    case True
    then show ?thesis by (subst str_nat.simps) (simp add: digit_value_nth del: digit_value.simps)
  next
    case False
    have d: "digit_value (''0123456789'' ! (n mod 10)) = Some (n mod 10)"
      by (rule digit_value_nth) simp
    from False have "read_digits 0 (str_nat (n div 10)) = Some (n div 10)" by (rule "1.IH")
    then show ?thesis
      using False
      by (subst str_nat.simps) (simp add: read_digits_append d del: digit_value.simps)
  qed
qed

lemma read_nat_digits:
  assumes "d < 10"
  shows "read_nat (str_nat a @ [''0123456789'' ! d]) = Some (10 * a + d)"
  unfolding read_nat_def
  using digit_value_nth [OF assms]
  by (simp add: read_digits_append read_digits_str_nat del: digit_value.simps)

lemma str_nat_digit: "d < 10 \<Longrightarrow> str_nat d = [''0123456789'' ! d]"
  by (subst str_nat.simps) simp

subsection \<open>Rounding\<close>

lemma round_half_even_cases:
  "round_half_even y = \<lfloor>y\<rfloor> \<and> y - of_int \<lfloor>y\<rfloor> \<le> 1 / 2
   \<or> round_half_even y = \<lfloor>y\<rfloor> + 1 \<and> 1 / 2 \<le> y - of_int \<lfloor>y\<rfloor>"
  unfolding round_half_even_def Let_def by (simp add: not_less)

lemma round_half_even_error: "\<bar>of_int (round_half_even y) - y\<bar> \<le> 1 / 2"
proof -
  have lo: "of_int \<lfloor>y\<rfloor> \<le> y" by (rule of_int_floor_le)
  have hi: "y < of_int \<lfloor>y\<rfloor> + 1" by linarith
  from round_half_even_cases [of y] show ?thesis
  proof
    assume "round_half_even y = \<lfloor>y\<rfloor> \<and> y - of_int \<lfloor>y\<rfloor> \<le> 1 / 2"
    then have "round_half_even y = \<lfloor>y\<rfloor>" and "y - of_int \<lfloor>y\<rfloor> \<le> 1 / 2" by simp_all
    with lo show ?thesis by (simp only: abs_le_iff) linarith
  next
    assume "round_half_even y = \<lfloor>y\<rfloor> + 1 \<and> 1 / 2 \<le> y - of_int \<lfloor>y\<rfloor>"
    then have e: "round_half_even y = \<lfloor>y\<rfloor> + 1" and "1 / 2 \<le> y - of_int \<lfloor>y\<rfloor>" by simp_all
    with hi show ?thesis unfolding e by (simp only: abs_le_iff of_int_add of_int_1) linarith
  qed
qed

lemma round_half_even_nonneg: "0 \<le> y \<Longrightarrow> 0 \<le> round_half_even y"
proof -
  assume "0 \<le> y"
  then have "0 \<le> \<lfloor>y\<rfloor>" by simp
  then show ?thesis unfolding round_half_even_def Let_def by auto
qed

lemma bit_length_bounds:
  "0 < n \<Longrightarrow> 2 ^ (bit_length n - 1) \<le> n \<and> n < 2 ^ bit_length n"
proof (induction n rule: bit_length.induct)
  case (1 n)
  show ?case
  proof (cases "n div 2 = 0")
    case True
    with "1.prems" have "n = 1" by presburger
    then show ?thesis by (simp add: bit_length.simps)
  next
    case False
    then have pos: "0 < n div 2" by simp
    from "1.prems" have n0: "n \<noteq> 0" by simp
    from "1.IH" [OF n0 pos]
    have lo: "2 ^ (bit_length (n div 2) - 1) \<le> n div 2" and hi: "n div 2 < 2 ^ bit_length (n div 2)"
      by simp_all
    have bl: "bit_length n = Suc (bit_length (n div 2))"
      using n0 by (subst bit_length.simps) simp
    have blpos: "0 < bit_length (n div 2)"
      using pos by (subst bit_length.simps) simp
    have "2 ^ (bit_length n - 1) = 2 * 2 ^ (bit_length (n div 2) - 1)"
      unfolding bl using blpos by (cases "bit_length (n div 2)") simp_all
    also have "\<dots> \<le> 2 * (n div 2)" using lo by simp
    also have "\<dots> \<le> n" by simp
    finally have a: "2 ^ (bit_length n - 1) \<le> n" .
    have "n < 2 * (n div 2) + 2" by presburger
    also have "\<dots> \<le> 2 * 2 ^ bit_length (n div 2)" using hi by simp
    finally have b: "n < 2 ^ bit_length n" unfolding bl by simp
    from a b show ?thesis ..
  qed
qed

lemma bit_length_le: "n < 2 ^ k \<Longrightarrow> bit_length n \<le> k"
proof (cases "n = 0")
  case True
  then show ?thesis by (simp add: bit_length.simps)
next
  case False
  assume lt: "n < 2 ^ k"
  from False have "2 ^ (bit_length n - 1) \<le> n" using bit_length_bounds by simp
  then have "(2::nat) ^ (bit_length n - 1) < 2 ^ k" using lt by (rule le_less_trans)
  then have "bit_length n - 1 < k" by simp
  then show ?thesis by simp
qed

subsection \<open>Powers of two and the exponent\<close>

lemma pow2_powi: "pow2 e = 2 powi e"
proof (cases "0 \<le> e")
  case True
  then show ?thesis by (simp only: pow2_def power_int_def if_True)
next
  case False
  have "(1::rat) / 2 ^ nat (- e) = inverse 2 ^ nat (- e)"
    by (simp add: power_one_over inverse_eq_divide)
  with False show ?thesis by (simp only: pow2_def power_int_def if_False)
qed

lemma pow2_pos: "0 < pow2 e"
  unfolding pow2_powi by simp

lemma pow2_mono: "e \<le> e' \<Longrightarrow> pow2 e \<le> pow2 e'"
  unfolding pow2_powi by (rule power_int_increasing) simp_all

lemma pow2_strict_mono: "e < e' \<Longrightarrow> pow2 e < pow2 e'"
  unfolding pow2_powi by (rule power_int_strict_increasing) simp_all

lemma pow2_nat: "pow2 (int k) = 2 ^ k"
  by (simp add: pow2_def)

lemma pow2_neg_nat: "pow2 (- int k) = 1 / 2 ^ k"
proof (cases "k = 0")
  case True
  then show ?thesis by (simp add: pow2_def)
next
  case False
  then have "\<not> 0 \<le> - int k" and "nat (- (- int k)) = k" by simp_all
  then show ?thesis by (simp only: pow2_def if_False)
qed

text \<open>\<open>exponent\<close> is the integer part of the binary logarithm.\<close>

lemma exponent_bounds:
  assumes "0 < x"
  shows "pow2 (exponent x) \<le> x \<and> x < pow2 (exponent x + 1)"
proof (cases "1 \<le> x")
  case True
  define n where "n = nat \<lfloor>x\<rfloor>"
  have fl: "1 \<le> \<lfloor>x\<rfloor>" using True by simp
  then have n: "0 < n" "int n = \<lfloor>x\<rfloor>" by (simp_all add: n_def)
  from bit_length_bounds [OF n(1)]
  have lo: "2 ^ (bit_length n - 1) \<le> n" and hi: "n < 2 ^ bit_length n" by simp_all
  have blpos: "0 < bit_length n" using n(1) by (subst bit_length.simps) simp
  have e: "exponent x = int (bit_length n - 1)"
    using True blpos by (simp add: exponent_def n_def)
  have e1: "exponent x + 1 = int (bit_length n)"
    using blpos unfolding e by simp
  have "(2::rat) ^ (bit_length n - 1) \<le> of_nat n"
    using lo by (metis of_nat_le_iff of_nat_numeral of_nat_power)
  also have "(of_nat n :: rat) = of_int \<lfloor>x\<rfloor>" using n(2) by (metis of_int_of_nat_eq)
  also have "\<dots> \<le> x" by (rule of_int_floor_le)
  finally have a: "pow2 (exponent x) \<le> x" unfolding e pow2_nat .
  have "Suc n \<le> 2 ^ bit_length n" using hi by simp
  then have "(of_nat (Suc n) :: rat) \<le> 2 ^ bit_length n"
    by (metis of_nat_le_iff of_nat_numeral of_nat_power)
  moreover have "x < of_int \<lfloor>x\<rfloor> + 1" by linarith
  moreover have "(of_nat (Suc n) :: rat) = of_int \<lfloor>x\<rfloor> + 1"
    using n(2) by (metis of_int_of_nat_eq of_nat_Suc add.commute)
  ultimately have b: "x < pow2 (exponent x + 1)" unfolding e1 pow2_nat by linarith
  from a b show ?thesis ..
next
  case False
  then have x1: "x < 1" by simp
  define y where "y = 1 / x"
  have y1: "1 < y" using assms x1 by (simp add: y_def)
  define m where "m = nat (\<lceil>y\<rceil> - 1)"
  have cl: "2 \<le> \<lceil>y\<rceil>" using y1 by linarith
  then have m: "0 < m" "int m = \<lceil>y\<rceil> - 1" by (simp_all add: m_def)
  from bit_length_bounds [OF m(1)]
  have lo: "2 ^ (bit_length m - 1) \<le> m" and hi: "m < 2 ^ bit_length m" by simp_all
  have blpos: "0 < bit_length m" using m(1) by (subst bit_length.simps) simp
  have e: "exponent x = - int (bit_length m)"
    using False by (simp add: exponent_def m_def y_def)
  have e1: "exponent x + 1 = - int (bit_length m - 1)"
    using blpos unfolding e by simp
  have "Suc m \<le> 2 ^ bit_length m" using hi by simp
  then have "(of_nat (Suc m) :: rat) \<le> 2 ^ bit_length m"
    by (metis of_nat_le_iff of_nat_numeral of_nat_power)
  moreover have "(of_nat (Suc m) :: rat) = of_int \<lceil>y\<rceil>"
    using m(2) by (metis of_int_of_nat_eq of_nat_Suc add.commute diff_add_cancel of_int_add of_int_1)
  moreover have "y \<le> of_int \<lceil>y\<rceil>" by (rule le_of_int_ceiling)
  ultimately have yle: "y \<le> 2 ^ bit_length m" by linarith
  have "1 / 2 ^ bit_length m \<le> 1 / y"
    using yle y1 by (intro divide_left_mono) simp_all
  then have a: "pow2 (exponent x) \<le> x"
    unfolding e pow2_neg_nat using assms by (simp add: y_def)
  have "(2::rat) ^ (bit_length m - 1) \<le> of_nat m"
    using lo by (metis of_nat_le_iff of_nat_numeral of_nat_power)
  also have "(of_nat m :: rat) = of_int \<lceil>y\<rceil> - 1"
    using m(2) by (metis of_int_of_nat_eq of_int_diff of_int_1)
  also have "\<dots> < y" by linarith
  finally have ylt: "2 ^ (bit_length m - 1) < y" .
  have y0: "0 < y" using y1 by simp
  have "1 / y < 1 / 2 ^ (bit_length m - 1)"
    using ylt y0 by (intro divide_strict_left_mono) simp_all
  then have b: "x < pow2 (exponent x + 1)"
    unfolding e1 pow2_neg_nat using assms by (simp add: y_def)
  from a b show ?thesis ..
qed

lemma exponent_less: "0 < x \<Longrightarrow> x < pow2 k \<Longrightarrow> exponent x < k"
proof (rule ccontr)
  assume x: "0 < x" and lt: "x < pow2 k" and "\<not> exponent x < k"
  then have "k \<le> exponent x" by simp
  then have "pow2 k \<le> pow2 (exponent x)" by (rule pow2_mono)
  also have "\<dots> \<le> x" using exponent_bounds [OF x] by simp
  finally show False using lt by simp
qed

subsection \<open>The error of one rounding\<close>

lemma round64_zero: "round64 0 = 0"
  by (simp add: round64_def)

lemma round64_nonneg: "0 \<le> x \<Longrightarrow> 0 \<le> round64 x"
proof (cases "x = 0")
  case True
  then show ?thesis by (simp add: round64_zero)
next
  case False
  assume "0 \<le> x"
  define u where "u = pow2 (max (exponent x) (- 1022) - 52)"
  have u: "0 < u" unfolding u_def by (rule pow2_pos)
  have "0 \<le> x / u" using \<open>0 \<le> x\<close> u by simp
  then have "0 \<le> round_half_even (x / u)" by (rule round_half_even_nonneg)
  then have "0 \<le> (of_int (round_half_even (x / u)) :: rat) * u" using u by simp
  then show ?thesis using False by (simp add: round64_def Let_def u_def)
qed

lemma round64_error:
  assumes "0 < x" and "max (exponent x) (- 1022) \<le> k"
  shows "\<bar>round64 x - x\<bar> \<le> pow2 (k - 52) / 2"
proof -
  define u where "u = pow2 (max (exponent x) (- 1022) - 52)"
  have u: "0 < u" unfolding u_def by (rule pow2_pos)
  have uk: "u \<le> pow2 (k - 52)" unfolding u_def using assms(2) by (intro pow2_mono) simp
  have r: "round64 x = of_int (round_half_even (x / u)) * u"
    using assms(1) by (simp add: round64_def Let_def u_def)
  have "round64 x - x = (of_int (round_half_even (x / u)) - x / u) * u"
    unfolding r using u by (simp add: left_diff_distrib)
  then have "\<bar>round64 x - x\<bar> = \<bar>of_int (round_half_even (x / u)) - x / u\<bar> * u"
    using u by (simp add: abs_mult)
  also have "\<dots> \<le> (1 / 2) * u"
    using round_half_even_error [of "x / u"] u by (intro mult_right_mono) simp_all
  also have "\<dots> \<le> (1 / 2) * pow2 (k - 52)" using uk by simp
  finally show ?thesis by simp
qed

lemma round64_error_below:
  assumes "0 \<le> x" and "x < pow2 (k + 1)" and "- 1022 \<le> k"
  shows "\<bar>round64 x - x\<bar> \<le> pow2 (k - 52) / 2"
proof (cases "x = 0")
  case True
  have "0 < pow2 (k - 52)" by (rule pow2_pos)
  then show ?thesis using True by (simp add: round64_zero)
next
  case False
  with assms(1) have x: "0 < x" by simp
  from x assms(2) have "exponent x < k + 1" by (rule exponent_less)
  with assms(3) have "max (exponent x) (- 1022) \<le> k" by simp
  with x show ?thesis by (rule round64_error)
qed

subsection \<open>The hit rate of non-negative counters\<close>

lemma truediv_accurate:
  assumes "0 \<le> h" and "0 < t" and "h \<le> t"
  shows "py_truediv h t = Inr (Finite False (round64 (of_int h / of_int t)))
       \<and> 0 \<le> round64 (of_int h / of_int t)
       \<and> \<bar>round64 (of_int h / of_int t) - of_int h / of_int t\<bar> \<le> 1 / 2 ^ 53"
proof -
  define q :: rat where "q = of_int h / of_int t"
  have q0: "0 \<le> q" using assms(1,2) by (simp add: q_def)
  have q1: "q \<le> 1" using assms(2,3) by (simp add: q_def)
  have "q < pow2 (0 + 1)" using q1 by (simp add: pow2_def)
  with q0 have "\<bar>round64 q - q\<bar> \<le> pow2 (0 - 52) / 2"
    by (rule round64_error_below) simp
  then have err: "\<bar>round64 q - q\<bar> \<le> 1 / 2 ^ 53" by (simp add: pow2_def)
  have nn: "0 \<le> round64 q" using q0 by (rule round64_nonneg)
  from err q1 have "round64 q \<le> 1 + 1 / 2 ^ 53" by (simp only: abs_le_iff) linarith
  then have small: "\<not> 2 ^ 1024 \<le> round64 q" by simp
  have abs: "\<bar>of_int h :: rat\<bar> / \<bar>of_int t\<bar> = q"
    using assms(1,2) by (simp add: q_def)
  have sign: "((h < 0) \<noteq> (t < 0)) = False" using assms(1,2) by simp
  have "py_truediv h t = Inr (Finite False (round64 q))"
    using assms(2) small unfolding py_truediv_def abs Let_def sign by simp
  with nn err show ?thesis unfolding q_def by simp
qed

lemma mul_100_accurate:
  assumes "0 \<le> m" and "m \<le> 1 + 1 / 2 ^ 53"
  shows "float_mul_100 (Finite False m) = Finite False (round64 (m * 100))
       \<and> 0 \<le> round64 (m * 100)
       \<and> \<bar>round64 (m * 100) - m * 100\<bar> \<le> 1 / 2 ^ 47"
proof -
  have p0: "0 \<le> m * 100" using assms(1) by simp
  have "m * 100 < 128" using assms(2) by simp
  then have "m * 100 < pow2 (6 + 1)" by (simp add: pow2_def)
  with p0 have "\<bar>round64 (m * 100) - m * 100\<bar> \<le> pow2 (6 - 52) / 2"
    by (rule round64_error_below) simp
  then have err: "\<bar>round64 (m * 100) - m * 100\<bar> \<le> 1 / 2 ^ 47" by (simp add: pow2_def)
  have nn: "0 \<le> round64 (m * 100)" using p0 by (rule round64_nonneg)
  from err \<open>m * 100 < 128\<close> have "round64 (m * 100) \<le> 128 + 1 / 2 ^ 47"
    by (simp only: abs_le_iff) linarith
  then have small: "\<not> 2 ^ 1024 \<le> round64 (m * 100)" by simp
  have "float_mul_100 (Finite False m) = Finite False (round64 (m * 100))"
    using small by (simp add: Let_def)
  with nn err show ?thesis by simp
qed

lemma hit_rate_accurate:
  assumes "0 \<le> hits c" and "0 \<le> misses c" and "0 < hits c + misses c"
  shows "\<exists>y. hit_rate c = Inr (Finite False y) \<and> 0 \<le> y
            \<and> \<bar>y - 100 * of_int (hits c) / of_int (hits c + misses c)\<bar> \<le> 1 / 2 ^ 45"
proof -
  define q :: rat where "q = of_int (hits c) / of_int (hits c + misses c)"
  define m where "m = round64 q"
  have le: "hits c \<le> hits c + misses c" using assms(2) by simp
  from truediv_accurate [OF assms(1) assms(3) le]
  have d: "py_truediv (hits c) (hits c + misses c) = Inr (Finite False m)"
    and m0: "0 \<le> m" and merr: "\<bar>m - q\<bar> \<le> 1 / 2 ^ 53"
    unfolding m_def q_def by simp_all
  have q1: "q \<le> 1" using assms(3) le by (simp add: q_def)
  from merr q1 have m1: "m \<le> 1 + 1 / 2 ^ 53" by (simp only: abs_le_iff) linarith
  from mul_100_accurate [OF m0 m1]
  have f: "float_mul_100 (Finite False m) = Finite False (round64 (m * 100))"
    and y0: "0 \<le> round64 (m * 100)"
    and yerr: "\<bar>round64 (m * 100) - m * 100\<bar> \<le> 1 / 2 ^ 47"
    by simp_all
  have hr: "hit_rate c = Inr (Finite False (round64 (m * 100)))"
    using assms(3) by (simp add: hit_rate_def Let_def d f del: float_mul_100.simps)
  have "\<bar>round64 (m * 100) - 100 * q\<bar> \<le> \<bar>round64 (m * 100) - m * 100\<bar> + 100 * \<bar>m - q\<bar>"
    by (simp only: abs_le_iff) (auto simp: abs_if)
  also have "\<dots> \<le> 1 / 2 ^ 47 + 100 * (1 / 2 ^ 53)"
    using yerr merr by (intro add_mono mult_left_mono) simp_all
  also have "\<dots> \<le> 1 / 2 ^ 45" by simp
  finally have "\<bar>round64 (m * 100) - 100 * q\<bar> \<le> 1 / 2 ^ 45" .
  then have "\<bar>round64 (m * 100) - 100 * of_int (hits c) / of_int (hits c + misses c)\<bar> \<le> 1 / 2 ^ 45"
    by (simp add: q_def)
  with hr y0 show ?thesis by (intro exI conjI)
qed

lemma hit_rate_no_requests:
  "hits c + misses c = 0 \<Longrightarrow> hit_rate c = Inr (Finite False 0)"
  by (simp add: hit_rate_def Let_def)

subsection \<open>Rendering\<close>

lemma format_reads_back:
  assumes "0 \<le> y"
  shows "\<exists>ip fd. format_1f (Finite False y) = ip @ ''.'' @ [fd]
              \<and> read_nat (ip @ [fd]) = Some (nat (tenths y))
              \<and> \<bar>of_nat (nat (tenths y)) / 10 - y\<bar> \<le> 1 / 20"
proof -
  define T where "T = tenths y"
  have "0 \<le> y * 10" using assms by simp
  then have T0: "0 \<le> T" unfolding T_def tenths_def by (rule round_half_even_nonneg)
  define a where "a = nat (T div 10)"
  define d where "d = nat (T mod 10)"
  have d10: "d < 10" unfolding d_def by simp
  have d0: "0 \<le> T div 10" "0 \<le> T mod 10" using T0 by simp_all
  have "int (10 * a + d) = 10 * (T div 10) + T mod 10"
    using d0 by (simp add: a_def d_def)
  also have "\<dots> = T" by simp
  finally have sum: "10 * a + d = nat T" by simp
  have fmt: "format_1f (Finite False y) = str_nat a @ ''.'' @ [''0123456789'' ! d]"
    using str_nat_digit [OF d10] by (simp add: T_def a_def d_def)
  have rd: "read_nat (str_nat a @ [''0123456789'' ! d]) = Some (nat T)"
    using read_nat_digits [OF d10, of a] unfolding sum .
  have "\<bar>of_int T - y * 10\<bar> \<le> 1 / 2"
    unfolding T_def tenths_def by (rule round_half_even_error)
  then have "\<bar>of_int T / 10 - y\<bar> \<le> 1 / 20" by (simp only: abs_le_iff) linarith
  moreover have "(of_nat (nat T) :: rat) = of_int T" using T0 by simp
  ultimately have err: "\<bar>of_nat (nat T) / 10 - y\<bar> \<le> 1 / 20" by simp
  from fmt rd err show ?thesis unfolding T_def by (intro exI conjI)
qed

subsection \<open>Counters never decrease\<close>

lemma get_counters_mono:
  "hits c \<le> hits (snd (Cache_get c k d t1 t2)) \<and> misses c \<le> misses (snd (Cache_get c k d t1 t2))"
proof (cases "map_of (entries c) k")
  case None
  then show ?thesis by (simp add: get_miss)
next
  case (Some e)
  then show ?thesis
    by (cases "is_expired e t1") (simp_all add: get_expired get_hit)
qed

lemma step_counters_mono:
  "hits c \<le> hits (step c x) \<and> misses c \<le> misses (step c x)"
  by (cases x) (simp_all add: step_unfold get_counters_mono set_frame delete_frame Cache_clear_def)

lemma run_counters_mono:
  "hits c \<le> hits (run c xs) \<and> misses c \<le> misses (run c xs)"
proof (induction xs arbitrary: c)
  case Nil
  then show ?case by simp
next
  case (Cons x xs)
  have "hits c \<le> hits (step c x)" "misses c \<le> misses (step c x)"
    using step_counters_mono [of c x] by simp_all
  moreover have "hits (step c x) \<le> hits (run (step c x) xs)"
    "misses (step c x) \<le> misses (run (step c x) xs)"
    using Cons.IH [of "step c x"] by simp_all
  ultimately show ?case by simp
qed

lemma run_counters_nonneg:
  "0 \<le> hits (run (fresh n ms p d) calls) \<and> 0 \<le> misses (run (fresh n ms p d) calls)"
  using run_counters_mono [of "fresh n ms p d" calls] by (simp add: fresh_def)

subsection \<open>Particular counters\<close>

lemma stats_of_rate:
  "hit_rate c = Inr hr \<Longrightarrow>
   \<exists>r. Cache_get_stats c = Inr r \<and> r_hit_rate r = format_1f hr @ ''%''"
  by (simp add: Cache_get_stats_def)

lemma rate_3_of_4: "hits c = 3 \<Longrightarrow> misses c = 1 \<Longrightarrow> hit_rate c = Inr (Finite False 75)"
proof -
  assume c: "hits c = 3" "misses c = 1"
  have q: "round64 (3 / 4) = 3 / 4" by code_simp
  have p: "round64 75 = 75" by code_simp
  have "py_truediv 3 4 = Inr (Finite False (3 / 4))"
    by (simp add: py_truediv_def Let_def q)
  moreover have "float_mul_100 (Finite False (3 / 4)) = Finite False 75"
    by (simp add: Let_def p)
  ultimately show ?thesis by (simp add: hit_rate_def Let_def c del: float_mul_100.simps)
qed

lemma rate_23_of_80:
  "hits c = 23 \<Longrightarrow> misses c = 57 \<Longrightarrow>
   hit_rate c = Inr (Finite False (8092405580431359 / 281474976710656))"
proof -
  assume c: "hits c = 23" "misses c = 57"
  have q: "round64 (23 / 80) = 2589569785738035 / 9007199254740992" by code_simp
  have p: "round64 (2589569785738035 / 9007199254740992 * 100)
      = 8092405580431359 / 281474976710656" by code_simp
  have "py_truediv 23 80 = Inr (Finite False (2589569785738035 / 9007199254740992))"
    by (simp add: py_truediv_def Let_def q)
  moreover have "float_mul_100 (Finite False (2589569785738035 / 9007199254740992))
      = Finite False (8092405580431359 / 281474976710656)"
    using p by (simp add: Let_def)
  ultimately show ?thesis by (simp add: hit_rate_def Let_def c del: float_mul_100.simps)
qed

lemma format_75: "format_1f (Finite False 75) = ''75.0''"
  by code_simp

lemma format_zero: "format_1f (Finite False 0) = ''0.0''"
  by code_simp

lemma format_28_7: "format_1f (Finite False (8092405580431359 / 281474976710656)) = ''28.7''"
  by code_simp

lemma stats_accurate:
  assumes "0 \<le> hits c" and "0 \<le> misses c"
  shows "\<exists>r ip fd T.
       Cache_get_stats c = Inr r
     \<and> r_hit_rate r = ip @ ''.'' @ [fd] @ ''%''
     \<and> read_nat (ip @ [fd]) = Some T
     \<and> (if 0 < hits c + misses c
         then \<bar>(of_nat T :: rat) / 10 - 100 * of_int (hits c) / of_int (hits c + misses c)\<bar>
                \<le> 1 / 20 + 1 / 2 ^ 45
         else T = 0)"
proof (cases "0 < hits c + misses c")
  case True
  from hit_rate_accurate [OF assms True]
  obtain y where hr: "hit_rate c = Inr (Finite False y)" and y0: "0 \<le> y"
    and yerr: "\<bar>y - 100 * of_int (hits c) / of_int (hits c + misses c)\<bar> \<le> 1 / 2 ^ 45"
    by (elim exE conjE)
  from stats_of_rate [OF hr]
  obtain r where r: "Cache_get_stats c = Inr r"
    and s: "r_hit_rate r = format_1f (Finite False y) @ ''%''"
    by (elim exE conjE)
  from format_reads_back [OF y0]
  obtain ip fd where fmt: "format_1f (Finite False y) = ip @ ''.'' @ [fd]"
    and rd: "read_nat (ip @ [fd]) = Some (nat (tenths y))"
    and terr: "\<bar>of_nat (nat (tenths y)) / 10 - y\<bar> \<le> 1 / 20"
    by (elim exE conjE)
  have s': "r_hit_rate r = ip @ ''.'' @ [fd] @ ''%''" unfolding s fmt by simp
  have "\<bar>(of_nat (nat (tenths y)) :: rat) / 10 - 100 * of_int (hits c) / of_int (hits c + misses c)\<bar>
      \<le> \<bar>of_nat (nat (tenths y)) / 10 - y\<bar>
        + \<bar>y - 100 * of_int (hits c) / of_int (hits c + misses c)\<bar>"
    by (simp only: abs_le_iff) (auto simp: abs_if)
  also have "\<dots> \<le> 1 / 20 + 1 / 2 ^ 45" using terr yerr by (rule add_mono)
  finally have "\<bar>(of_nat (nat (tenths y)) :: rat) / 10
        - 100 * of_int (hits c) / of_int (hits c + misses c)\<bar> \<le> 1 / 20 + 1 / 2 ^ 45" .
  with True have last: "if 0 < hits c + misses c
         then \<bar>(of_nat (nat (tenths y)) :: rat) / 10 - 100 * of_int (hits c) / of_int (hits c + misses c)\<bar>
                \<le> 1 / 20 + 1 / 2 ^ 45
         else nat (tenths y) = 0" by (simp only: if_True)
  from r s' rd last show ?thesis by (intro exI conjI)
next
  case False
  with assms have z: "hits c + misses c = 0" by simp
  have hr: "hit_rate c = Inr (Finite False 0)" using z by (rule hit_rate_no_requests)
  from stats_of_rate [OF hr]
  obtain r where r: "Cache_get_stats c = Inr r"
    and s: "r_hit_rate r = format_1f (Finite False 0) @ ''%''"
    by (elim exE conjE)
  have t0: "nat (tenths 0) = 0" by (simp add: tenths_def round_half_even_def)
  have "(0::rat) \<le> 0" by simp
  from format_reads_back [OF this]
  obtain ip fd where fmt: "format_1f (Finite False 0) = ip @ ''.'' @ [fd]"
    and rd: "read_nat (ip @ [fd]) = Some 0"
    unfolding t0 by (elim exE conjE)
  have s': "r_hit_rate r = ip @ ''.'' @ [fd] @ ''%''" unfolding s fmt by simp
  from False have last: "if 0 < hits c + misses c
         then \<bar>(of_nat (0::nat) :: rat) / 10 - 100 * of_int (hits c) / of_int (hits c + misses c)\<bar>
                \<le> 1 / 20 + 1 / 2 ^ 45
         else (0::nat) = 0" by (simp only: if_False)
  from r s' rd last show ?thesis by (intro exI conjI)
qed

text \<open>
  Claim C7. For every cache the code can build (any sequence of calls on a new cache)
  \<open>get_stats\<close> raises nothing, the division being guarded, and reports the hit rate as a
  decimal numeral with one digit after the point and a percent sign. With requests
  counted, the reported number is \<open>hits / (hits + misses) * 100\<close> to within half a unit
  of its last digit and the rounding error of the two binary64 operations (at most
  \<open>2^(-45)\<close>); with none it is 0. The report is \<open>0.0%\<close> when \<open>hits + misses = 0\<close>,
  \<open>75.0%\<close> after 3 hits and 1 miss, and \<open>28.7%\<close> after 23 hits and 57 misses, where
  binary64 rounds 28.75 down.
\<close>

theorem get_stats_hit_rate:
  "(\<exists>r ip fd T.
       Cache_get_stats (run (fresh n ms p d) calls) = Inr r
     \<and> r_hit_rate r = ip @ ''.'' @ [fd] @ ''%''
     \<and> read_nat (ip @ [fd]) = Some T
     \<and> (if 0 < hits (run (fresh n ms p d) calls) + misses (run (fresh n ms p d) calls)
         then \<bar>(of_nat T :: rat) / 10
                 - 100 * of_int (hits (run (fresh n ms p d) calls))
                     / of_int (hits (run (fresh n ms p d) calls)
                               + misses (run (fresh n ms p d) calls))\<bar>
                \<le> 1 / 20 + 1 / 2 ^ 45
         else T = 0))
   \<and> (hits c + misses c = 0 \<longrightarrow>
        (\<exists>r. Cache_get_stats c = Inr r \<and> r_hit_rate r = ''0.0%''))
   \<and> (hits c = 3 \<and> misses c = 1 \<longrightarrow>
        (\<exists>r. Cache_get_stats c = Inr r \<and> r_hit_rate r = ''75.0%''))
   \<and> (hits c = 23 \<and> misses c = 57 \<longrightarrow>
        (\<exists>r. Cache_get_stats c = Inr r \<and> r_hit_rate r = ''28.7%''))"
proof (intro conjI impI)
  have "0 \<le> hits (run (fresh n ms p d) calls)" "0 \<le> misses (run (fresh n ms p d) calls)"
    using run_counters_nonneg [of n ms p d calls] by simp_all
  then show "\<exists>r ip fd T.
       Cache_get_stats (run (fresh n ms p d) calls) = Inr r
     \<and> r_hit_rate r = ip @ ''.'' @ [fd] @ ''%''
     \<and> read_nat (ip @ [fd]) = Some T
     \<and> (if 0 < hits (run (fresh n ms p d) calls) + misses (run (fresh n ms p d) calls)
         then \<bar>(of_nat T :: rat) / 10
                 - 100 * of_int (hits (run (fresh n ms p d) calls))
                     / of_int (hits (run (fresh n ms p d) calls)
                               + misses (run (fresh n ms p d) calls))\<bar>
                \<le> 1 / 20 + 1 / 2 ^ 45
         else T = 0)"
    by (rule stats_accurate)
next
  assume "hits c + misses c = 0"
  then have "hit_rate c = Inr (Finite False 0)" by (rule hit_rate_no_requests)
  from stats_of_rate [OF this]
  show "\<exists>r. Cache_get_stats c = Inr r \<and> r_hit_rate r = ''0.0%''"
    unfolding format_zero by simp
next
  assume "hits c = 3 \<and> misses c = 1"
  then have "hit_rate c = Inr (Finite False 75)" by (simp add: rate_3_of_4)
  from stats_of_rate [OF this]
  show "\<exists>r. Cache_get_stats c = Inr r \<and> r_hit_rate r = ''75.0%''"
    unfolding format_75 by simp
next
  assume "hits c = 23 \<and> misses c = 57"
  then have "hit_rate c = Inr (Finite False (8092405580431359 / 281474976710656))"
    by (simp add: rate_23_of_80)
  from stats_of_rate [OF this]
  show "\<exists>r. Cache_get_stats c = Inr r \<and> r_hit_rate r = ''28.7%''"
    unfolding format_28_7 by simp
qed

theorem get_stats_hit_rate_witness:
  "(\<exists>r. Cache_get_stats (fresh ''c'' 100 LRU None :: nat Cache) = Inr r \<and> r_hit_rate r = ''0.0%'')
   \<and> (\<exists>r. Cache_get_stats (run (fresh ''c'' 100 LRU None)
          [Set ''A'' (Some (1::nat)) None 10 11 12, Get ''A'' None 20 21, Get ''A'' None 30 31,
           Get ''A'' None 40 41, Get ''Z'' None 50 51]) = Inr r
        \<and> r_hit_rate r = ''75.0%'')
   \<and> (\<exists>r ip fd T. Cache_get_stats (run (fresh ''c'' 100 LRU None)
          [Set ''A'' (Some (1::nat)) None 10 11 12, Get ''A'' None 20 21, Get ''A'' None 30 31,
           Get ''A'' None 40 41, Get ''Z'' None 50 51]) = Inr r
        \<and> r_hit_rate r = ip @ ''.'' @ [fd] @ ''%''
        \<and> read_nat (ip @ [fd]) = Some T
        \<and> \<bar>(of_nat T :: rat) / 10 - 100 * 3 / 4\<bar> \<le> 1 / 20 + 1 / 2 ^ 45)"
proof -
  let ?c = "run (fresh ''c'' 100 LRU None)
          [Set ''A'' (Some (1::nat)) None 10 11 12, Get ''A'' None 20 21, Get ''A'' None 30 31,
           Get ''A'' None 40 41, Get ''Z'' None 50 51]"
  have z: "hits (fresh ''c'' 100 LRU None :: nat Cache) + misses (fresh ''c'' 100 LRU None :: nat Cache) = 0"
    by (simp add: fresh_def)
  have h: "hits ?c = 3 \<and> misses ?c = 1"
    by (simp add: Cache_set_def Cache_get_def fresh_def len_entries_def compute_expires_def
        py_or_def is_expired_def access_def)
  note t = get_stats_hit_rate [where c = "fresh ''c'' 100 LRU None :: nat Cache"
      and n = "''c''" and ms = 100 and p = LRU and d = None
      and calls = "[Set ''A'' (Some (1::nat)) None 10 11 12, Get ''A'' None 20 21,
           Get ''A'' None 30 31, Get ''A'' None 40 41, Get ''Z'' None 50 51]"]
  note u = get_stats_hit_rate [where c = ?c
      and n = "''c''" and ms = 100 and p = LRU and d = None
      and calls = "[Set ''A'' (Some (1::nat)) None 10 11 12, Get ''A'' None 20 21,
           Get ''A'' None 30 31, Get ''A'' None 40 41, Get ''Z'' None 50 51]"]
  note a = t [THEN conjunct2, THEN conjunct1, THEN mp, OF z]
  note b = u [THEN conjunct2, THEN conjunct2, THEN conjunct1, THEN mp, OF h]
  have h3: "hits ?c = 3" and m1: "misses ?c = 1" using h by simp_all
  have g: "\<exists>r ip fd T. Cache_get_stats ?c = Inr r
        \<and> r_hit_rate r = ip @ ''.'' @ [fd] @ ''%''
        \<and> read_nat (ip @ [fd]) = Some T
        \<and> \<bar>(of_nat T :: rat) / 10 - 100 * 3 / 4\<bar> \<le> 1 / 20 + 1 / 2 ^ 45"
    using u [THEN conjunct1] unfolding h3 m1 by simp
  show ?thesis by (intro conjI) (rule a, rule b, rule g)
qed

end
